theory Spec2Isabelle
  imports Complex_Main
begin

section \<open>Errors\<close>

text \<open>
  The exceptions the program can raise, as values. \<open>IndexError("Invalid Range.")\<close> is
  \<open>InvalidRange\<close>, \<open>IndexError("Not found.")\<close> is \<open>NotFound\<close>; a missing dictionary
  key raises \<open>KeyError\<close> and a division by zero raises \<open>ZeroDivisionError\<close> (Python raises
  it for floats as well as for integers); an arithmetic operation can raise \<open>OverflowError\<close>
  and \<open>math.sqrt\<close> can raise \<open>ValueError\<close>.
\<close>

datatype error =
  InvalidRange | NotFound | KeyError | ZeroDivisionError | OverflowError | ValueError

section \<open>The range store\<close>

text \<open>
  \<open>class QRangeStore\<close>: one field, the list of \<open>(low, high, value)\<close> records in the order
  they were appended. The keys are of any type with the comparisons \<open><\<close> and \<open>\<le>\<close>, of which
  nothing is assumed (the simulator's keys are reals).
\<close>

record ('k, 'v) QRangeStore =
  store :: "('k \<times> 'k \<times> 'v) list"

definition QRangeStore_init :: "('k, 'v) QRangeStore" where
  "QRangeStore_init = \<lparr>store = []\<rparr>"

text \<open>
  \<open>__setitem__\<close> mutates the object or raises; the model returns the outcome together with
  the object as it is afterwards.
\<close>

definition setitem ::
  "('k::ord, 'v) QRangeStore \<Rightarrow> 'k \<times> 'k \<Rightarrow> 'v \<Rightarrow> (error + unit) \<times> ('k, 'v) QRangeStore" where
  "setitem self rng val =
     (case rng of (low, high) \<Rightarrow>
        if \<not> low < high then (Inl InvalidRange, self)
        else (Inr (), self\<lparr>store := store self @ [(low, high, val)]\<rparr>))"

definition getitem :: "('k::ord, 'v) QRangeStore \<Rightarrow> 'k \<Rightarrow> error + 'v list" where
  "getitem self key =
     (let ret = [v. (l, h, v) \<leftarrow> store self, l \<le> key \<and> key < h]
      in if ret = [] then Inl NotFound else Inr ret)"

text \<open>The records of a store that cover a point, and the value of a record.\<close>

definition covers :: "'k::ord \<Rightarrow> 'k \<times> 'k \<times> 'v \<Rightarrow> bool" where
  "covers p r = (case r of (l, h, v) \<Rightarrow> l \<le> p \<and> p < h)"

definition rec_value :: "'k \<times> 'k \<times> 'v \<Rightarrow> 'v" where
  "rec_value r = (case r of (l, h, v) \<Rightarrow> v)"

lemma comprehension_filter:
  "[v. (l, h, v) \<leftarrow> rs, l \<le> key \<and> key < h] = map rec_value (filter (covers key) rs)"
  by (induction rs) (auto simp: covers_def rec_value_def split: if_splits)

lemma getitem_filter:
  "getitem self key =
     (if filter (covers key) (store self) = [] then Inl NotFound
      else Inr (map rec_value (filter (covers key) (store self))))"
  by (simp add: getitem_def comprehension_filter Let_def)


text \<open>
  C1: for every store and every query point \<open>p\<close>, the query returns exactly the values of
  the stored records with \<open>low \<le> p < high\<close>, in insertion order, and fails with \<open>NotFound\<close>
  when no record covers \<open>p\<close>. After inserting \<open>[0, 3) \<rightarrow> A\<close> and \<open>[2, 4) \<rightarrow> D\<close>, the query
  at 2.5 returns \<open>[A, D]\<close>, the query at 3.5 returns \<open>[D]\<close> and the query at 5 fails.
\<close>

theorem getitem_returns_covering_values:
  "getitem self p =
     (if filter (\<lambda>(l, h, v). l \<le> p \<and> p < h) (store self) = [] then Inl NotFound
      else Inr (map (\<lambda>(l, h, v). v) (filter (\<lambda>(l, h, v). l \<le> p \<and> p < h) (store self))))
   \<and> (let s = snd (setitem (snd (setitem QRangeStore_init (0 :: real, 3) ''A'')) (2, 4) ''D'')
      in getitem s 2.5 = Inr [''A'', ''D''] \<and> getitem s 3.5 = Inr [''D'']
         \<and> getitem s 5 = Inl NotFound)"
proof -
  have cov: "covers p = (\<lambda>(l, h, v). l \<le> p \<and> p < h)" for p :: "'x::ord"
    by (auto simp: covers_def fun_eq_iff)
  have val: "rec_value = (\<lambda>(l, h, v). v)"
    by (auto simp: rec_value_def fun_eq_iff)
  have general: "getitem self p =
     (if filter (\<lambda>(l, h, v). l \<le> p \<and> p < h) (store self) = [] then Inl NotFound
      else Inr (map (\<lambda>(l, h, v). v) (filter (\<lambda>(l, h, v). l \<le> p \<and> p < h) (store self))))"
    using getitem_filter [of self p] by (simp only: cov val)
  have scenario: "(let s = snd (setitem (snd (setitem QRangeStore_init (0 :: real, 3) ''A'')) (2, 4) ''D'')
      in getitem s 2.5 = Inr [''A'', ''D''] \<and> getitem s 3.5 = Inr [''D'']
         \<and> getitem s 5 = Inl NotFound)"
    by (simp add: setitem_def QRangeStore_init_def getitem_def)
  from general scenario show ?thesis by (rule conjI)
qed

text \<open>The theorem at the store of the class's doctest.\<close>

theorem getitem_doctest_witness:
  "(let s = \<lparr>store = [(0 :: real, 3, ''Record A''), (3, 4, ''Record B''), (0, 2, ''Record C''),
                        (2, 4, ''Record D''), (8, 9, ''Record E'')]\<rparr>
    in getitem s 2.1 = Inr [''Record A'', ''Record D''] \<and> getitem s 8 = Inr [''Record E'']
       \<and> getitem s 5 = Inl NotFound \<and> getitem s 9 = Inl NotFound)"
  using getitem_returns_covering_values
    [of "\<lparr>store = [(0 :: real, 3, ''Record A''), (3, 4, ''Record B''), (0, 2, ''Record C''),
                        (2, 4, ''Record D''), (8, 9, ''Record E'')]\<rparr>" "2.1"]
    getitem_returns_covering_values
    [of "\<lparr>store = [(0 :: real, 3, ''Record A''), (3, 4, ''Record B''), (0, 2, ''Record C''),
                        (2, 4, ''Record D''), (8, 9, ''Record E'')]\<rparr>" 8]
    getitem_returns_covering_values
    [of "\<lparr>store = [(0 :: real, 3, ''Record A''), (3, 4, ''Record B''), (0, 2, ''Record C''),
                        (2, 4, ''Record D''), (8, 9, ''Record E'')]\<rparr>" 5]
    getitem_returns_covering_values
    [of "\<lparr>store = [(0 :: real, 3, ''Record A''), (3, 4, ''Record B''), (0, 2, ''Record C''),
                        (2, 4, ''Record D''), (8, 9, ''Record E'')]\<rparr>" 9]
  by (simp add: Let_def)

text \<open>
  Python's numbers under comparison: the ints and the floats are ordered, except the float
  \<open>nan\<close>, with which every comparison is false. \<open>number\<close> has the ordered numbers, as reals,
  and \<open>NaN\<close>.
\<close>

datatype number = Num real | NaN

instantiation number :: ord
begin

fun less_eq_number :: "number \<Rightarrow> number \<Rightarrow> bool" where
  "less_eq_number (Num a) (Num b) = (a \<le> b)"
| "less_eq_number (Num a) NaN = False"
| "less_eq_number NaN b = False"

fun less_number :: "number \<Rightarrow> number \<Rightarrow> bool" where
  "less_number (Num a) (Num b) = (a < b)"
| "less_number (Num a) NaN = False"
| "less_number NaN b = False"

instance ..

end

text \<open>
  C2 (amended): an insertion fails with \<open>InvalidRange\<close> if and only if \<open>low < high\<close> is false, and
  then the store is unchanged; otherwise it appends exactly the record \<open>(low, high, value)\<close>
  at the end and changes nothing else. For linearly ordered keys \<open>low < high\<close> is false if and
  only if \<open>low \<ge> high\<close>.
\<close>

theorem setitem_spec:
  "setitem self (low, high) v =
     (if low < high then (Inr (), self\<lparr>store := store self @ [(low, high, v)]\<rparr>)
      else (Inl InvalidRange, self))
   \<and> ((\<exists>e. fst (setitem self (low, high) v) = Inl e) = (\<not> low < high))
   \<and> (\<not> low < high \<longrightarrow> fst (setitem self (low, high) v) = Inl InvalidRange
         \<and> snd (setitem self (low, high) v) = self)
   \<and> (low < high \<longrightarrow> fst (setitem self (low, high) v) = Inr ()
         \<and> store (snd (setitem self (low, high) v)) = store self @ [(low, high, v)]
         \<and> QRangeStore.more (snd (setitem self (low, high) v)) = QRangeStore.more self)
   \<and> ((\<exists>e. fst (setitem ordered (a :: 'l::linorder, b) w) = Inl e) = (a \<ge> b))"
  by (auto simp: setitem_def)

theorem setitem_spec_witness:
  "setitem \<lparr>store = [(0 :: int, 3, ''Record A'')]\<rparr> (2, 0) ''Record F''
     = (Inl InvalidRange, \<lparr>store = [(0, 3, ''Record A'')]\<rparr>)
   \<and> setitem \<lparr>store = [(0 :: int, 3, ''Record A'')]\<rparr> (3, 4) ''Record B''
     = (Inr (), \<lparr>store = [(0, 3, ''Record A''), (3, 4, ''Record B'')]\<rparr>)
   \<and> setitem \<lparr>store = [(Num 0, Num 3, ''Record A'')]\<rparr> (Num 3, NaN) ''Record B''
     = (Inl InvalidRange, \<lparr>store = [(Num 0, Num 3, ''Record A'')]\<rparr>)"
  using setitem_spec [of "\<lparr>store = [(0 :: int, 3, ''Record A'')]\<rparr>" 2 0 "''Record F''"
          "\<lparr>store = []\<rparr>" "0 :: int" 0 "''w''"]
    setitem_spec [of "\<lparr>store = [(0 :: int, 3, ''Record A'')]\<rparr>" 3 4 "''Record B''"
          "\<lparr>store = []\<rparr>" "0 :: int" 0 "''w''"]
    setitem_spec [of "\<lparr>store = [(Num 0, Num 3, ''Record A'')]\<rparr>" "Num 3" NaN "''Record B''"
          "\<lparr>store = []\<rparr>" "0 :: int" 0 "''w''"]
  by simp

text \<open>
  C2 as stated fails for a bound that is \<open>nan\<close>: the insertion of \<open>(nan, 1)\<close> is refused, as
  is that of \<open>(0, nan)\<close>, although \<open>low \<ge> high\<close> is false.
\<close>

theorem setitem_nan_counterexample:
  "fst (setitem \<lparr>store = []\<rparr> (NaN, Num 1) ''Record'') = Inl InvalidRange
   \<and> \<not> NaN \<ge> Num 1
   \<and> fst (setitem \<lparr>store = []\<rparr> (Num 0, NaN) ''Record'') = Inl InvalidRange
   \<and> \<not> Num 0 \<ge> NaN"
  by (simp add: setitem_def)

section \<open>Dictionaries\<close>

text \<open>
  A Python \<open>dict\<close> keeps its keys in insertion order: it is modelled by an association
  list with pairwise distinct keys. \<open>dict_set d k v\<close> is \<open>d[k] = v\<close>: an existing key keeps
  its place and gets the new value, a new key goes to the end. \<open>dict_or a b\<close> is
  \<open>a | b\<close>: a copy of \<open>a\<close> updated with the items of \<open>b\<close> in their order.
\<close>

type_synonym ('k, 'v) dict = "('k \<times> 'v) list"

fun dict_set :: "('k, 'v) dict \<Rightarrow> 'k \<Rightarrow> 'v \<Rightarrow> ('k, 'v) dict" where
  "dict_set [] k v = [(k, v)]"
| "dict_set ((k', v') # d) k v = (if k' = k then (k', v) # d else (k', v') # dict_set d k v)"

definition dict_or :: "('k, 'v) dict \<Rightarrow> ('k, 'v) dict \<Rightarrow> ('k, 'v) dict" where
  "dict_or a b = foldl (\<lambda>acc (k, v). dict_set acc k v) a b"

definition keys :: "('k, 'v) dict \<Rightarrow> 'k list" where
  "keys d = map fst d"

text \<open>\<open>reduce(__or__, data, {})\<close>, the merge at the end of \<open>read\<close>.\<close>

definition merge :: "('k, 'v) dict list \<Rightarrow> ('k, 'v) dict" where
  "merge data = foldl dict_or [] data"

lemma map_of_dict_set: "map_of (dict_set d k v) = (map_of d)(k \<mapsto> v)"
  by (induction d) (auto simp: fun_eq_iff)

lemma keys_Nil: "keys [] = []"
  by (simp add: keys_def)

lemma keys_Cons: "keys (p # d) = fst p # keys d"
  by (simp add: keys_def)

lemma keys_dict_set: "set (keys (dict_set d k v)) = insert k (set (keys d))"
proof (induction d)
  case Nil
  then show ?case by (simp add: keys_def)
next
  case (Cons p d)
  obtain k' v' where p: "p = (k', v')" by (cases p)
  show ?case
  proof (cases "k' = k")
    case True
    then show ?thesis by (auto simp: p keys_Cons)
  next
    case False
    then show ?thesis using Cons.IH by (auto simp: p keys_Cons)
  qed
qed

lemma distinct_dict_set: "distinct (keys d) \<Longrightarrow> distinct (keys (dict_set d k v))"
proof (induction d)
  case Nil
  then show ?case by (simp add: keys_def)
next
  case (Cons p d)
  obtain k' v' where p: "p = (k', v')" by (cases p)
  from Cons.prems have k': "k' \<notin> set (keys d)" and d: "distinct (keys d)"
    by (simp_all add: p keys_def)
  show ?case
  proof (cases "k' = k")
    case True
    with Cons.prems show ?thesis by (simp add: p keys_def)
  next
    case False
    have "k' \<notin> set (keys (dict_set d k v))"
      using k' False by (simp add: keys_dict_set)
    moreover have "distinct (keys (dict_set d k v))"
      using d by (rule Cons.IH)
    ultimately show ?thesis using False by (simp add: p keys_def)
  qed
qed

lemma foldl_dict_set_Cons:
  "foldl (\<lambda>acc (k, v). dict_set acc k v) a ((k, v) # b)
     = foldl (\<lambda>acc (k, v). dict_set acc k v) (dict_set a k v) b"
  by simp

lemma map_of_dict_or:
  "distinct (keys b) \<Longrightarrow> map_of (dict_or a b) = map_of a ++ map_of b"
  unfolding dict_or_def
proof (induction b arbitrary: a)
  case Nil
  then show ?case by simp
next
  case (Cons p b)
  obtain k v where p: "p = (k, v)" by (cases p)
  from Cons.prems have k: "map_of b k = None" and b: "distinct (keys b)"
    by (auto simp: p keys_def map_of_eq_None_iff)
  have "map_of (foldl (\<lambda>acc (k, v). dict_set acc k v) (dict_set a k v) b)
      = map_of (dict_set a k v) ++ map_of b"
    using b by (rule Cons.IH)
  also have "\<dots> = map_of a ++ map_of ((k, v) # b)"
    using k by (auto simp: map_of_dict_set fun_eq_iff map_add_def split: option.splits)
  finally show ?case by (simp only: p foldl_dict_set_Cons)
qed

lemma keys_dict_or: "set (keys (dict_or a b)) = set (keys a) \<union> set (keys b)"
  unfolding dict_or_def
proof (induction b arbitrary: a)
  case Nil
  then show ?case by (simp add: keys_def)
next
  case (Cons p b)
  obtain k v where p: "p = (k, v)" by (cases p)
  show ?case
    by (simp only: p foldl_dict_set_Cons Cons.IH keys_dict_set) (auto simp: keys_def)
qed

lemma distinct_dict_or: "distinct (keys a) \<Longrightarrow> distinct (keys (dict_or a b))"
  unfolding dict_or_def
proof (induction b arbitrary: a)
  case Nil
  then show ?case by simp
next
  case (Cons p b)
  obtain k v where p: "p = (k, v)" by (cases p)
  have "distinct (keys (dict_set a k v))"
    using Cons.prems by (rule distinct_dict_set)
  then have "distinct (keys (foldl (\<lambda>acc (k, v). dict_set acc k v) (dict_set a k v) b))"
    by (rule Cons.IH)
  then show ?case by (simp only: p foldl_dict_set_Cons)
qed

lemma map_of_foldl_dict_or:
  "\<forall>d \<in> set ds. distinct (keys d) \<Longrightarrow>
     map_of (foldl dict_or acc ds) = foldl (++) (map_of acc) (map map_of ds)"
  by (induction ds arbitrary: acc) (simp_all add: map_of_dict_or)

lemma distinct_foldl_dict_or:
  "distinct (keys acc) \<Longrightarrow> distinct (keys (foldl dict_or acc ds))"
  by (induction ds arbitrary: acc) (simp_all add: distinct_dict_or)

lemma keys_foldl_dict_or:
  "set (keys (foldl dict_or acc ds)) = set (keys acc) \<union> (\<Union>d \<in> set ds. set (keys d))"
  by (induction ds arbitrary: acc) (auto simp: keys_dict_or)

lemma map_of_merge:
  "\<forall>d \<in> set ds. distinct (keys d) \<Longrightarrow>
     map_of (merge ds) = foldl (++) Map.empty (map map_of ds)"
  unfolding merge_def by (simp add: map_of_foldl_dict_or)

lemma distinct_merge: "distinct (keys (merge ds))"
  unfolding merge_def by (rule distinct_foldl_dict_or) (simp add: keys_def)

lemma keys_merge: "set (keys (merge ds)) = (\<Union>d \<in> set ds. set (keys d))"
  unfolding merge_def by (simp add: keys_foldl_dict_or keys_Nil)

text \<open>
  C3: \<open>merge\<close> is the left-to-right union starting from the empty mapping: a key of a later
  mapping overwrites the same key of an earlier one, and the keys a later mapping lacks
  are kept. So a merge of \<open>{a: S1}\<close> and \<open>{a: S2}\<close> is \<open>{a: S2}\<close>, and a merge of \<open>{a: S1}\<close> and
  \<open>{b: S2}\<close> is \<open>{a: S1, b: S2}\<close>. (The mappings are dictionaries: their keys are pairwise
  distinct.)
\<close>

theorem merge_left_to_right_union:
  "((\<forall>d \<in> set (ds :: ('k, 'v) dict list). distinct (keys d)) \<longrightarrow>
      map_of (merge ds) = foldl (++) Map.empty (map map_of ds))
   \<and> merge [] = ([] :: ('k, 'v) dict)
   \<and> ((\<forall>d \<in> set (ds @ [e]). distinct (keys d)) \<longrightarrow>
        map_of (merge (ds @ [e])) k
          = (case map_of e k of Some v \<Rightarrow> Some v | None \<Rightarrow> map_of (merge ds) k))
   \<and> distinct (keys (merge ds))
   \<and> merge [[(a, S1)], [(a, S2)]] = [(a, S2)]
   \<and> (a \<noteq> b \<longrightarrow> merge [[(a, S1)], [(b, S2)]] = [(a, S1), (b, S2)])"
proof -
  have "(\<forall>d \<in> set (ds @ [e]). distinct (keys d)) \<longrightarrow>
        map_of (merge (ds @ [e])) k
          = (case map_of e k of Some v \<Rightarrow> Some v | None \<Rightarrow> map_of (merge ds) k)"
  proof
    assume wf: "\<forall>d \<in> set (ds @ [e]). distinct (keys d)"
    then have "\<forall>d \<in> set ds. distinct (keys d)" by simp
    then have "foldl (++) Map.empty (map map_of ds) = map_of (merge ds)"
      by (simp add: map_of_merge)
    moreover have "map_of (merge (ds @ [e])) = foldl (++) Map.empty (map map_of (ds @ [e]))"
      using wf by (rule map_of_merge)
    ultimately have "map_of (merge (ds @ [e])) = map_of (merge ds) ++ map_of e"
      by simp
    then show "map_of (merge (ds @ [e])) k
          = (case map_of e k of Some v \<Rightarrow> Some v | None \<Rightarrow> map_of (merge ds) k)"
      by (simp add: map_add_def)
  qed
  moreover have "merge [] = ([] :: ('k, 'v) dict)"
    by (simp add: merge_def)
  moreover have "merge [[(a, S1)], [(a, S2)]] = [(a, S2)]"
    by (simp add: merge_def dict_or_def)
  moreover have "a \<noteq> b \<longrightarrow> merge [[(a, S1)], [(b, S2)]] = [(a, S1), (b, S2)]"
    by (simp add: merge_def dict_or_def)
  moreover have "(\<forall>d \<in> set ds. distinct (keys d)) \<longrightarrow>
      map_of (merge ds) = foldl (++) Map.empty (map map_of ds)"
    by (simp add: map_of_merge)
  ultimately show ?thesis using distinct_merge [of ds] by blast
qed


theorem merge_witness:
  "map_of (merge [[(''a'', 1 :: nat), (''b'', 5)], [(''b'', 2)]]) ''b'' = Some 2
   \<and> map_of (merge [[(''a'', 1 :: nat), (''b'', 5)], [(''b'', 2)]]) ''a''
       = map_of (merge [[(''a'', 1 :: nat), (''b'', 5)]]) ''a''
   \<and> merge [[(''a'', 1 :: nat)], [(''b'', 2)]] = [(''a'', 1), (''b'', 2)]
   \<and> merge [[(''a'', 1 :: nat)], [(''a'', 2)]] = [(''a'', 2)]"
  using merge_left_to_right_union
          [of "[[(''a'', 1 :: nat), (''b'', 5)]]" "[(''b'', 2)]" "''b''" "''a''" "1 :: nat" 2 "''b''"]
        merge_left_to_right_union
          [of "[[(''a'', 1 :: nat), (''b'', 5)]]" "[(''b'', 2)]" "''a''" "''a''" "1 :: nat" 2 "''b''"]
  by (simp add: keys_def)

section \<open>Modelling and simulation\<close>

text \<open>
  An agent's state is a dictionary with the fixed keys \<open>name\<close>, \<open>time\<close>, \<open>time_step\<close>,
  \<open>x\<close>, \<open>y\<close>, \<open>vx\<close>, \<open>vy\<close>, \<open>m\<close>: a record, over the type \<open>'n\<close> of the numbers.
\<close>

record 'n AgentState =
  name :: string
  time :: 'n
  time_step :: 'n
  x :: 'n
  y :: 'n
  vx :: 'n
  vy :: 'n
  m :: 'n

text \<open>
  Python's numbers are integers and floats, and an operation on them can raise: a division
  by zero raises \<open>ZeroDivisionError\<close>, the conversion of a large integer to a float and a
  power of a float raise \<open>OverflowError\<close>, \<open>math.sqrt\<close> of a negative number raises
  \<open>ValueError\<close>; a float operation rounds, and can underflow to zero. The integrator is
  therefore written over an arbitrary arithmetic: the operations it uses, each returning a
  number or an error, the values of its literals \<open>0\<close>, \<open>0.5\<close> and \<open>1.0\<close>, and the value of the
  global \<open>gravitational_constant\<close>. The exponent of \<open>**\<close> is the literal \<open>2\<close>, a natural number.
  The last two fields are the literals of the scheduler, \<open>-999999999\<close> and \<open>0.001\<close>.
\<close>

record 'n arith =
  op_add :: "'n \<Rightarrow> 'n \<Rightarrow> error + 'n"
  op_sub :: "'n \<Rightarrow> 'n \<Rightarrow> error + 'n"
  op_mul :: "'n \<Rightarrow> 'n \<Rightarrow> error + 'n"
  op_truediv :: "'n \<Rightarrow> 'n \<Rightarrow> error + 'n"
  op_pow :: "'n \<Rightarrow> nat \<Rightarrow> error + 'n"
  math_sqrt :: "'n \<Rightarrow> error + 'n"
  int_0 :: 'n
  float_0_5 :: 'n
  float_1_0 :: 'n
  grav_const :: 'n
  int_neg_999999999 :: 'n
  float_0_001 :: 'n

text \<open>An operation that raises ends the evaluation; otherwise the evaluation goes on.\<close>

definition and_then :: "error + 'a \<Rightarrow> ('a \<Rightarrow> error + 'b) \<Rightarrow> error + 'b" where
  "and_then r f = (case r of Inl e \<Rightarrow> Inl e | Inr v \<Rightarrow> f v)"

lemma and_then_Inl [simp]: "and_then (Inl e) f = Inl e"
  by (simp add: and_then_def)

lemma and_then_Inr [simp]: "and_then (Inr v) f = f v"
  by (simp add: and_then_def)

lemma and_then_returns: "(and_then r f = Inr w) = (\<exists>v. r = Inr v \<and> f v = Inr w)"
  by (cases r) simp_all

text \<open>
  The loop of \<open>propagate\<close> over \<open>universe.items()\<close>, with the forces accumulated so far.
  \<open>px\<close>, \<open>py\<close> and \<open>mass\<close> are the propagated agent's \<open>x\<close>, \<open>y\<close> and \<open>m\<close>, which the loop
  does not change. The operations are in the order in which Python evaluates them.
\<close>

fun forces_with ::
  "'n arith \<Rightarrow> string \<Rightarrow> 'n \<Rightarrow> 'n \<Rightarrow> 'n \<Rightarrow> (string, 'n AgentState) dict \<Rightarrow> 'n \<times> 'n \<Rightarrow>
     error + 'n \<times> 'n" where
  "forces_with A agentId mass px py [] (force_x, force_y) = Inr (force_x, force_y)"
| "forces_with A agentId mass px py ((ID, body) # rest) (force_x, force_y) =
     (if ID = agentId then forces_with A agentId mass px py rest (force_x, force_y)
      else
        and_then (op_sub A (x body) px) (\<lambda>dx.
        and_then (op_sub A (y body) py) (\<lambda>dy.
        and_then (op_mul A dx dx) (\<lambda>dx_dx.
        and_then (op_mul A dy dy) (\<lambda>dy_dy.
        and_then (op_add A dx_dx dy_dy) (\<lambda>square.
        and_then (math_sqrt A square) (\<lambda>distance.
        and_then (op_mul A (grav_const A) mass) (\<lambda>g_m.
        and_then (op_mul A g_m (m body)) (\<lambda>g_m_m.
        and_then (op_truediv A g_m_m distance) (\<lambda>quotient.
        and_then (op_mul A quotient distance) (\<lambda>force_magnitude.
        and_then (op_mul A force_magnitude dx) (\<lambda>f_dx.
        and_then (op_truediv A f_dx distance) (\<lambda>term_x.
        and_then (op_add A force_x term_x) (\<lambda>force_x'.
        and_then (op_mul A force_magnitude dy) (\<lambda>f_dy.
        and_then (op_truediv A f_dy distance) (\<lambda>term_y.
        and_then (op_add A force_y term_y) (\<lambda>force_y'.
        forces_with A agentId mass px py rest (force_x', force_y'))))))))))))))))))"

text \<open>
  \<open>propagate\<close>: the lookup of the agent's state, the loop, and the update of the position
  and the velocity; \<open>x += e\<close> is \<open>x = x + e\<close>, with \<open>e\<close> evaluated first.
\<close>

definition propagate_with ::
  "'n arith \<Rightarrow> string \<Rightarrow> (string, 'n AgentState) dict \<Rightarrow> error + 'n AgentState" where
  "propagate_with A agentId universe =
     (case map_of universe agentId of
        None \<Rightarrow> Inl KeyError
      | Some state \<Rightarrow>
          and_then (forces_with A agentId (m state) (x state) (y state) universe
                      (int_0 A, int_0 A)) (\<lambda>(force_x, force_y).
          and_then (op_truediv A force_x (m state)) (\<lambda>accel_x.
          and_then (op_truediv A force_y (m state)) (\<lambda>accel_y.
          and_then (op_mul A (vx state) (time_step state)) (\<lambda>vx_dt.
          and_then (op_mul A (float_0_5 A) accel_x) (\<lambda>half_ax.
          and_then (op_pow A (time_step state) 2) (\<lambda>dt_2.
          and_then (op_mul A half_ax dt_2) (\<lambda>half_ax_dt_2.
          and_then (op_add A vx_dt half_ax_dt_2) (\<lambda>step_x.
          and_then (op_add A (x state) step_x) (\<lambda>x'.
          and_then (op_mul A (vy state) (time_step state)) (\<lambda>vy_dt.
          and_then (op_mul A (float_0_5 A) accel_y) (\<lambda>half_ay.
          and_then (op_pow A (time_step state) 2) (\<lambda>dt_2.
          and_then (op_mul A half_ay dt_2) (\<lambda>half_ay_dt_2.
          and_then (op_add A vy_dt half_ay_dt_2) (\<lambda>step_y.
          and_then (op_add A (y state) step_y) (\<lambda>y'.
          and_then (op_mul A accel_x (time_step state)) (\<lambda>ax_dt.
          and_then (op_add A (vx state) ax_dt) (\<lambda>vx'.
          and_then (op_mul A accel_y (time_step state)) (\<lambda>ay_dt.
          and_then (op_add A (vy state) ay_dt) (\<lambda>vy'.
          and_then (op_add A (time state) (time_step state)) (\<lambda>time'.
          Inr \<lparr>name = name state, time = time', time_step = float_1_0 A,
               x = x', y = y', vx = vx', vy = vy', m = m state\<rparr>)))))))))))))))))))))"

section \<open>Exact arithmetic\<close>

text \<open>
  The arithmetic of the real numbers: no operation rounds or overflows, a division by zero
  raises \<open>ZeroDivisionError\<close> and the square root of a negative number raises \<open>ValueError\<close>.
  \<open>gravitational_constant\<close> is \<open>6.67 * (10 ** -11)\<close>.
\<close>

definition gravitational_constant :: real where
  "gravitational_constant = 6.67 * (1 / 10 ^ 11)"

definition real_arith :: "real arith" where
  "real_arith =
     \<lparr>op_add = (\<lambda>a b. Inr (a + b)),
      op_sub = (\<lambda>a b. Inr (a - b)),
      op_mul = (\<lambda>a b. Inr (a * b)),
      op_truediv = (\<lambda>a b. if b = 0 then Inl ZeroDivisionError else Inr (a / b)),
      op_pow = (\<lambda>a n. Inr (a ^ n)),
      math_sqrt = (\<lambda>a. if a < 0 then Inl ValueError else Inr (sqrt a)),
      int_0 = 0,
      float_0_5 = 0.5,
      float_1_0 = 1.0,
      grav_const = gravitational_constant,
      int_neg_999999999 = - 999999999,
      float_0_001 = 0.001\<rparr>"

text \<open>The seed of the program.\<close>

definition init :: "(string, real AgentState) dict" where
  "init =
     [(''Planet'', \<lparr>name = ''Earth'', time = 0, time_step = 0.02, x = 0, y = 0,
         vx = - 0.01, vy = 0, m = 1000\<rparr>),
      (''Satellite'', \<lparr>name = ''Moon'', time = 0, time_step = 0.02, x = 0, y = 5,
         vx = 0.01, vy = - 0.01, m = 1000\<rparr>),
      (''Sun'', \<lparr>name = ''Sun'', time = 0, time_step = 0.02, x = 10, y = 2.5,
         vx = 0, vy = 0, m = 10000\<rparr>)]"

text \<open>
  The loop and \<open>propagate\<close> over the reals, written out: the operations that can raise are
  the divisions, by \<open>distance\<close> and by \<open>mass\<close>. They are \<open>forces_with\<close> and \<open>propagate_with\<close> at
  \<open>real_arith\<close> (\<open>forces_exact\<close>, \<open>propagate_exact\<close>). The scheduler below runs on them.
\<close>

fun forces ::
  "string \<Rightarrow> real \<Rightarrow> real \<Rightarrow> real \<Rightarrow> (string, real AgentState) dict \<Rightarrow> real \<times> real \<Rightarrow>
     error + real \<times> real" where
  "forces agentId mass px py [] (force_x, force_y) = Inr (force_x, force_y)"
| "forces agentId mass px py ((ID, body) # rest) (force_x, force_y) =
     (if ID = agentId then forces agentId mass px py rest (force_x, force_y)
      else
        let dx = x body - px;
            dy = y body - py;
            distance = sqrt (dx * dx + dy * dy)
        in if distance = 0 then Inl ZeroDivisionError
           else
             let force_magnitude = gravitational_constant * mass * m body / distance * distance
             in forces agentId mass px py rest
                  (force_x + force_magnitude * dx / distance,
                   force_y + force_magnitude * dy / distance))"

definition propagate :: "string \<Rightarrow> (string, real AgentState) dict \<Rightarrow> error + real AgentState" where
  "propagate agentId universe =
     (case map_of universe agentId of
        None \<Rightarrow> Inl KeyError
      | Some state \<Rightarrow>
          (case forces agentId (m state) (x state) (y state) universe (0, 0) of
             Inl e \<Rightarrow> Inl e
           | Inr (force_x, force_y) \<Rightarrow>
               if m state = 0 then Inl ZeroDivisionError
               else
                 let accel_x = force_x / m state;
                     accel_y = force_y / m state
                 in Inr \<lparr>name = name state,
                         time = time state + time_step state,
                         time_step = 1.0,
                         x = x state + (vx state * time_step state
                               + 0.5 * accel_x * (time_step state) ^ 2),
                         y = y state + (vy state * time_step state
                               + 0.5 * accel_y * (time_step state) ^ 2),
                         vx = vx state + accel_x * time_step state,
                         vy = vy state + accel_y * time_step state,
                         m = m state\<rparr>))"

lemma forces_exact:
  "forces agentId mass px py universe (fx, fy)
     = forces_with real_arith agentId mass px py universe (fx, fy)"
proof (induction universe arbitrary: fx fy)
  case Nil
  show ?case by simp
next
  case (Cons p universe)
  obtain ID body where p: "p = (ID, body)" by (cases p)
  have nonneg: "\<not> a * a + b * b < 0" for a b :: real
    by (simp add: not_less)
  show ?case
    unfolding p by (simp add: Cons.IH real_arith_def Let_def nonneg)
qed

lemma propagate_exact: "propagate agentId universe = propagate_with real_arith agentId universe"
proof (cases "map_of universe agentId")
  case None
  then show ?thesis by (simp add: propagate_def propagate_with_def)
next
  case (Some state)
  have zero: "int_0 real_arith = 0" by (simp add: real_arith_def)
  note fe = forces_exact [of agentId "m state" "x state" "y state" universe 0 0]
  show ?thesis
  proof (cases "forces agentId (m state) (x state) (y state) universe (0, 0)")
    case (Inl e)
    with fe have fw: "forces_with real_arith agentId (m state) (x state) (y state) universe (0, 0)
        = Inl e"
      by simp
    show ?thesis by (simp add: propagate_def propagate_with_def Some zero fw Inl)
  next
    case (Inr r)
    obtain force_x force_y where r: "r = (force_x, force_y)" by (cases r)
    from fe Inr have fw:
      "forces_with real_arith agentId (m state) (x state) (y state) universe (0, 0)
        = Inr (force_x, force_y)"
      by (simp add: r)
    have "propagate_with real_arith agentId universe = propagate agentId universe"
      by (simp add: propagate_with_def Some zero fw)
         (simp add: propagate_def Some Inr r real_arith_def Let_def)
    then show ?thesis by simp
  qed
qed

section \<open>The integrator and its formulas\<close>

text \<open>
  The formulas in the words of the specification, over the same arithmetic. The force of
  one other body on the propagated agent: its magnitude
  \<open>G * m_self * m_b / distance * distance\<close> and its components
  \<open>force_magnitude * dx / distance\<close> and \<open>force_magnitude * dy / distance\<close>.
\<close>

definition distance_with :: "'n arith \<Rightarrow> 'n \<Rightarrow> 'n \<Rightarrow> error + 'n" where
  "distance_with A dx dy =
     and_then (op_mul A dx dx) (\<lambda>dx_dx.
     and_then (op_mul A dy dy) (\<lambda>dy_dy.
     and_then (op_add A dx_dx dy_dy) (\<lambda>square. math_sqrt A square)))"

definition force_magnitude_with :: "'n arith \<Rightarrow> 'n \<Rightarrow> 'n \<Rightarrow> 'n \<Rightarrow> error + 'n" where
  "force_magnitude_with A m_self m_b distance =
     and_then (op_mul A (grav_const A) m_self) (\<lambda>g_m.
     and_then (op_mul A g_m m_b) (\<lambda>g_m_m.
     and_then (op_truediv A g_m_m distance) (\<lambda>quotient. op_mul A quotient distance)))"

definition component_with :: "'n arith \<Rightarrow> 'n \<Rightarrow> 'n \<Rightarrow> 'n \<Rightarrow> error + 'n" where
  "component_with A force_magnitude d distance =
     and_then (op_mul A force_magnitude d) (\<lambda>f_d. op_truediv A f_d distance)"

definition pair_force_with ::
  "'n arith \<Rightarrow> 'n AgentState \<Rightarrow> 'n AgentState \<Rightarrow> error + 'n \<times> 'n" where
  "pair_force_with A self body =
     and_then (op_sub A (x body) (x self)) (\<lambda>dx.
     and_then (op_sub A (y body) (y self)) (\<lambda>dy.
     and_then (distance_with A dx dy) (\<lambda>distance.
     and_then (force_magnitude_with A (m self) (m body) distance) (\<lambda>force_magnitude.
     and_then (component_with A force_magnitude dx distance) (\<lambda>fx.
     and_then (component_with A force_magnitude dy distance) (\<lambda>fy.
     Inr (fx, fy)))))))"

text \<open>The other agents of a snapshot, in its order, and the sum of their forces, from 0.\<close>

definition others :: "string \<Rightarrow> (string, 'n AgentState) dict \<Rightarrow> 'n AgentState list" where
  "others agentId universe = map snd (filter (\<lambda>(ID, body). ID \<noteq> agentId) universe)"

fun net_force_with ::
  "'n arith \<Rightarrow> 'n AgentState \<Rightarrow> 'n AgentState list \<Rightarrow> 'n \<times> 'n \<Rightarrow> error + 'n \<times> 'n" where
  "net_force_with A self [] (sum_x, sum_y) = Inr (sum_x, sum_y)"
| "net_force_with A self (body # bodies) (sum_x, sum_y) =
     and_then (pair_force_with A self body) (\<lambda>(fx, fy).
     and_then (op_add A sum_x fx) (\<lambda>sum_x'.
     and_then (op_add A sum_y fy) (\<lambda>sum_y'.
     net_force_with A self bodies (sum_x', sum_y'))))"

text \<open>
  The new coordinate \<open>c + (v*dt + 0.5*accel*dt\<^sup>2)\<close> and the new velocity \<open>v + accel*dt\<close>.
\<close>

definition new_position :: "'n arith \<Rightarrow> 'n \<Rightarrow> 'n \<Rightarrow> 'n \<Rightarrow> 'n \<Rightarrow> error + 'n" where
  "new_position A c v accel dt =
     and_then (op_mul A v dt) (\<lambda>v_dt.
     and_then (op_mul A (float_0_5 A) accel) (\<lambda>half_a.
     and_then (op_pow A dt 2) (\<lambda>dt_2.
     and_then (op_mul A half_a dt_2) (\<lambda>half_a_dt_2.
     and_then (op_add A v_dt half_a_dt_2) (\<lambda>step. op_add A c step)))))"

definition new_velocity :: "'n arith \<Rightarrow> 'n \<Rightarrow> 'n \<Rightarrow> 'n \<Rightarrow> error + 'n" where
  "new_velocity A v accel dt = and_then (op_mul A accel dt) (\<lambda>a_dt. op_add A v a_dt)"

text \<open>
  The state of the specification: the net force divided by \<open>m_self\<close>, the new position, the
  new velocity and the new time, with \<open>dt\<close> the \<open>time_step\<close> of the input state.
\<close>

definition propagate_spec ::
  "'n arith \<Rightarrow> 'n AgentState \<Rightarrow> 'n AgentState list \<Rightarrow> error + 'n AgentState" where
  "propagate_spec A self bodies =
     and_then (net_force_with A self bodies (int_0 A, int_0 A)) (\<lambda>(force_x, force_y).
     and_then (op_truediv A force_x (m self)) (\<lambda>accel_x.
     and_then (op_truediv A force_y (m self)) (\<lambda>accel_y.
     and_then (new_position A (x self) (vx self) accel_x (time_step self)) (\<lambda>x'.
     and_then (new_position A (y self) (vy self) accel_y (time_step self)) (\<lambda>y'.
     and_then (new_velocity A (vx self) accel_x (time_step self)) (\<lambda>vx'.
     and_then (new_velocity A (vy self) accel_y (time_step self)) (\<lambda>vy'.
     and_then (op_add A (time self) (time_step self)) (\<lambda>time'.
     Inr \<lparr>name = name self, time = time', time_step = float_1_0 A,
          x = x', y = y', vx = vx', vy = vy', m = m self\<rparr>))))))))"

lemma forces_with_net_force:
  "(forces_with A agentId (m self) (x self) (y self) universe (fx, fy) = Inr r)
     = (net_force_with A self (others agentId universe) (fx, fy) = Inr r)"
proof (induction universe arbitrary: fx fy)
  case Nil
  show ?case by (simp add: others_def)
next
  case (Cons p universe)
  obtain ID body where p: "p = (ID, body)" by (cases p)
  show ?case
  proof (cases "ID = agentId")
    case True
    then have "others agentId ((agentId, body) # universe) = others agentId universe"
      by (simp add: others_def)
    with True Cons.IH show ?thesis by (simp add: p)
  next
    case False
    then have o: "others agentId ((ID, body) # universe) = body # others agentId universe"
      by (simp add: others_def)
    show ?thesis
      unfolding p o using False
      by (simp add: and_then_returns Cons.IH pair_force_with_def distance_with_def
            force_magnitude_with_def component_with_def split_beta) blast
  qed
qed

lemma and_then_assoc:
  "and_then (and_then r f) g = and_then r (\<lambda>v. and_then (f v) g)"
  by (cases r) simp_all

text \<open>
  C4 (amended): for an agent whose state is in the snapshot, \<open>propagate\<close> returns a state
  exactly when every operation of the following evaluation returns, and the state is its
  result: sum over every other agent, in the order of the snapshot and from \<open>0\<close>, the force
  of magnitude \<open>G * m_self * m_b / distance * distance\<close> with components
  \<open>force_magnitude * dx / distance\<close> and \<open>force_magnitude * dy / distance\<close>, divide by
  \<open>m_self\<close>, and apply \<open>x' = x + (vx*dt + 0.5*accel_x*dt\<^sup>2)\<close>,
  \<open>y' = y + (vy*dt + 0.5*accel_y*dt\<^sup>2)\<close>, \<open>vx' = vx + accel_x*dt\<close>, \<open>vy' = vy + accel_y*dt\<close>,
  \<open>time' = time + dt\<close>, where \<open>dt\<close> is the input state's \<open>time_step\<close>; the new state has
  \<open>time_step\<close> 1.0 and the same \<open>name\<close> and \<open>m\<close>. Each operation is the program's own, with
  its rounding; when one of them raises, \<open>propagate\<close> raises and returns no state. This
  holds in every arithmetic.
\<close>

theorem propagate_formula:
  assumes "map_of universe agentId = Some self"
  shows "(propagate_with A agentId universe = Inr newState)
           = (propagate_spec A self (others agentId universe) = Inr newState)
    \<and> ((\<exists>e. propagate_with A agentId universe = Inl e)
           = (\<exists>e. propagate_spec A self (others agentId universe) = Inl e))"
proof -
  have r: "(propagate_with A agentId universe = Inr s)
           = (propagate_spec A self (others agentId universe) = Inr s)" for s
    using assms
    by (simp add: propagate_with_def propagate_spec_def and_then_assoc
          new_position_def new_velocity_def split_beta
          and_then_returns [of "forces_with A agentId (m self) (x self) (y self) universe
                                  (int_0 A, int_0 A)"]
          and_then_returns [of "net_force_with A self (others agentId universe)
                                  (int_0 A, int_0 A)"]
          forces_with_net_force)
  have e: "(\<exists>e. p = Inl e) = (\<forall>s. p \<noteq> Inr s)" for p :: "error + 'a AgentState"
    by (cases p) simp_all
  show ?thesis by (simp only: e r simp_thms)
qed

lemma sqrt_25: "sqrt 25 = 5"
  using real_sqrt_abs [of 5] by simp

text \<open>The formula at two bodies at distance 5, over the reals.\<close>

theorem propagate_formula_witness:
  "propagate_with real_arith ''A''
     [(''A'', \<lparr>name = ''a'', time = 0, time_step = 2, x = 0, y = 0, vx = 0, vy = 0, m = 1\<rparr>),
      (''B'', \<lparr>name = ''b'', time = 0, time_step = 2, x = 3, y = 4, vx = 0, vy = 0, m = 5\<rparr>)]
   = Inr \<lparr>name = ''a'', time = 2, time_step = 1,
          x = 6 * gravitational_constant, y = 8 * gravitational_constant,
          vx = 6 * gravitational_constant, vy = 8 * gravitational_constant, m = 1\<rparr>"
proof -
  let ?a = "\<lparr>name = ''a'', time = 0 :: real, time_step = 2, x = 0, y = 0, vx = 0, vy = 0, m = 1\<rparr>"
  let ?b = "\<lparr>name = ''b'', time = 0 :: real, time_step = 2, x = 3, y = 4, vx = 0, vy = 0, m = 5\<rparr>"
  let ?r = "\<lparr>name = ''a'', time = 2 :: real, time_step = 1,
          x = 6 * gravitational_constant, y = 8 * gravitational_constant,
          vx = 6 * gravitational_constant, vy = 8 * gravitational_constant, m = 1\<rparr>"
  have s: "map_of [(''A'', ?a), (''B'', ?b)] ''A'' = Some ?a" by simp
  have o: "others ''A'' [(''A'', ?a), (''B'', ?b)] = [?b]" by (simp add: others_def)
  have f: "pair_force_with real_arith ?a ?b
             = Inr (3 * gravitational_constant, 4 * gravitational_constant)"
    by (simp add: pair_force_with_def distance_with_def force_magnitude_with_def
          component_with_def real_arith_def sqrt_25)
  have p: "propagate_spec real_arith ?a [?b] = Inr ?r"
    by (simp add: propagate_spec_def f new_position_def new_velocity_def)
       (simp add: real_arith_def gravitational_constant_def)
  from propagate_formula [OF s, of real_arith ?r] p show ?thesis
    by (simp only: o)
qed

text \<open>
  C4 as stated fails: with \<open>m = 0\<close> the division \<open>force_x / mass\<close> raises and no state is
  returned, although the snapshot holds the agent and the two positions differ.
\<close>

theorem propagate_zero_mass_counterexample:
  "propagate_with real_arith ''A''
     [(''A'', \<lparr>name = ''a'', time = 0, time_step = 1, x = 0, y = 0, vx = 0, vy = 0, m = 0\<rparr>),
      (''B'', \<lparr>name = ''b'', time = 0, time_step = 1, x = 0, y = 1, vx = 0, vy = 0, m = 1\<rparr>)]
   = Inl ZeroDivisionError
   \<and> propagate ''A''
     [(''A'', \<lparr>name = ''a'', time = 0, time_step = 1, x = 0, y = 0, vx = 0, vy = 0, m = 0\<rparr>),
      (''B'', \<lparr>name = ''b'', time = 0, time_step = 1, x = 0, y = 1, vx = 0, vy = 0, m = 1\<rparr>)]
   = Inl ZeroDivisionError"
  by (simp add: propagate_exact [symmetric] propagate_def)

text \<open>The distance the loop computes between the propagated agent and another body.\<close>

definition distance_to :: "real AgentState \<Rightarrow> real AgentState \<Rightarrow> real" where
  "distance_to self body =
     sqrt ((x body - x self) * (x body - x self) + (y body - y self) * (y body - y self))"

section \<open>The simulator\<close>

text \<open>
  The module's store, cursors and loops, here over the reals, with \<open>propagate\<close>; the same
  over an arbitrary arithmetic, with \<open>propagate_with\<close>, is \<open>tick_with\<close> and \<open>run_with\<close> below, and
  \<open>tick\<close> and \<open>run\<close> are these at \<open>real_arith\<close> (\<open>tick_exact\<close>, \<open>run_exact\<close>).

  \<open>read(t)\<close>: a failed lookup is caught and gives the empty dictionary.
\<close>

definition read ::
  "('n::ord, (string, 'n AgentState) dict) QRangeStore \<Rightarrow> 'n \<Rightarrow> (string, 'n AgentState) dict" where
  "read st t = merge (case getitem st t of Inl e \<Rightarrow> [] | Inr data \<Rightarrow> data)"

text \<open>
  The module's two global variables: \<open>store\<close> (here \<open>qstore\<close>, as \<open>store\<close> is the field of the
  class) and \<open>times\<close>.
\<close>

record 'n sim =
  qstore :: "('n, (string, 'n AgentState) dict) QRangeStore"
  times :: "(string, 'n) dict"

text \<open>
  The state before the loops: the seed record over \<open>[-999999999, 0)\<close> and every agent's
  cursor at its seed time. The seed dictionary \<open>ini\<close> is a parameter; the program's is
  \<open>init\<close>.
\<close>

definition start :: "(string, real AgentState) dict \<Rightarrow> real sim" where
  "start ini =
     \<lparr>qstore = snd (setitem QRangeStore_init (- 999999999, 0) ini),
      times = map (\<lambda>(agentId, state). (agentId, time state)) ini\<rparr>"

text \<open>
  The body of the inner loop for one agent. An exception leaves the loops; the model
  returns it with the state as it is then.
\<close>

definition tick :: "(string, real AgentState) dict \<Rightarrow> string \<Rightarrow> real sim \<Rightarrow> (error + unit) \<times> real sim" where
  "tick ini agentId s =
     (case map_of (times s) agentId of
        None \<Rightarrow> (Inl KeyError, s)
      | Some t \<Rightarrow>
          let universe = read (qstore s) (t - 0.001)
          in if set (keys universe) = set (keys ini) then
               (case propagate agentId universe of
                  Inl e \<Rightarrow> (Inl e, s)
                | Inr newState \<Rightarrow>
                    (case setitem (qstore s) (t, time newState) [(agentId, newState)] of
                       (Inl e, st) \<Rightarrow> (Inl e, s\<lparr>qstore := st\<rparr>)
                     | (Inr u, st) \<Rightarrow>
                         (Inr (), s\<lparr>qstore := st,
                                     times := dict_set (times s) agentId (time newState)\<rparr>)))
             else (Inr (), s))"

text \<open>\<open>for agentId in init\<close>: one scheduling pass, over the agents still to visit.\<close>

fun pass :: "(string, real AgentState) dict \<Rightarrow> string list \<Rightarrow> real sim \<Rightarrow> (error + unit) \<times> real sim" where
  "pass ini [] s = (Inr (), s)"
| "pass ini (agentId # rest) s =
     (case tick ini agentId s of
        (Inl e, s') \<Rightarrow> (Inl e, s')
      | (Inr u, s') \<Rightarrow> pass ini rest s')"

text \<open>\<open>for _ in range(n)\<close>: \<open>n\<close> scheduling passes (the program runs 10000).\<close>

fun passes :: "(string, real AgentState) dict \<Rightarrow> nat \<Rightarrow> real sim \<Rightarrow> (error + unit) \<times> real sim" where
  "passes ini 0 s = (Inr (), s)"
| "passes ini (Suc n) s =
     (case pass ini (keys ini) s of
        (Inl e, s') \<Rightarrow> (Inl e, s')
      | (Inr u, s') \<Rightarrow> passes ini n s')"

definition run :: "(string, real AgentState) dict \<Rightarrow> nat \<Rightarrow> (error + unit) \<times> real sim" where
  "run ini n = passes ini n (start ini)"

definition main :: "(error + unit) \<times> real sim" where
  "main = run init 10000"

section \<open>Properties of the simulator\<close>

lemma start_eq:
  "start ini = \<lparr>qstore = \<lparr>store = [(- 999999999, 0, ini)]\<rparr>,
                times = map (\<lambda>(agentId, state). (agentId, time state)) ini\<rparr>"
  by (simp add: start_def setitem_def QRangeStore_init_def)

lemma read_eq: "read st t = merge (map rec_value (filter (covers t) (store st)))"
  by (simp add: read_def getitem_filter)

lemma propagate_Inr:
  "propagate agentId universe = Inr newState \<Longrightarrow>
     \<exists>self. map_of universe agentId = Some self
       \<and> time newState = time self + time_step self \<and> time_step newState = 1
       \<and> m newState = m self \<and> name newState = name self"
  by (auto simp: propagate_def Let_def split: option.splits sum.splits if_splits prod.splits)

text \<open>The state after a tick that commits \<open>newState\<close> for \<open>agentId\<close> at cursor \<open>t\<close>.\<close>

definition committed :: "'n sim \<Rightarrow> string \<Rightarrow> 'n \<Rightarrow> 'n AgentState \<Rightarrow> 'n sim" where
  "committed s agentId t newState =
     s\<lparr>qstore := (qstore s)\<lparr>store := store (qstore s) @ [(t, time newState, [(agentId, newState)])]\<rparr>,
       times := dict_set (times s) agentId (time newState)\<rparr>"

text \<open>The gate of the scheduler: the tick of an agent is blocked when it is closed.\<close>

definition blocked :: "(string, real AgentState) dict \<Rightarrow> string \<Rightarrow> real sim \<Rightarrow> bool" where
  "blocked ini agentId s =
     (case map_of (times s) agentId of
        None \<Rightarrow> False
      | Some t \<Rightarrow> set (keys (read (qstore s) (t - 0.001))) \<noteq> set (keys ini))"

lemma tick_eq:
  "tick ini agentId s =
     (case map_of (times s) agentId of
        None \<Rightarrow> (Inl KeyError, s)
      | Some t \<Rightarrow>
          if set (keys (read (qstore s) (t - 0.001))) = set (keys ini) then
            (case propagate agentId (read (qstore s) (t - 0.001)) of
               Inl e \<Rightarrow> (Inl e, s)
             | Inr newState \<Rightarrow>
                 if t < time newState then (Inr (), committed s agentId t newState)
                 else (Inl InvalidRange, s))
          else (Inr (), s))"
  by (simp add: tick_def Let_def setitem_def committed_def split: option.splits sum.splits)

lemma tick_cases:
  "(\<exists>e. tick ini agentId s = (Inl e, s))
   \<or> (blocked ini agentId s \<and> tick ini agentId s = (Inr (), s))
   \<or> (\<exists>t newState. map_of (times s) agentId = Some t
        \<and> set (keys (read (qstore s) (t - 0.001))) = set (keys ini)
        \<and> propagate agentId (read (qstore s) (t - 0.001)) = Inr newState
        \<and> t < time newState \<and> \<not> blocked ini agentId s
        \<and> tick ini agentId s = (Inr (), committed s agentId t newState))"
  by (auto simp: tick_eq blocked_def split: option.splits sum.splits)

text \<open>A property that every tick keeps holds after a pass and after any number of passes.\<close>

lemma pass_preserves:
  assumes "\<And>s agentId. P s \<Longrightarrow> P (snd (tick ini agentId s))" and "P s"
  shows "P (snd (pass ini agents s))"
  using assms(2)
proof (induction agents arbitrary: s)
  case Nil
  then show ?case by simp
next
  case (Cons agentId agents)
  obtain r s' where t: "tick ini agentId s = (r, s')" by (cases "tick ini agentId s")
  from assms(1) [OF Cons.prems, of agentId] have s': "P s'" by (simp add: t)
  show ?case
  proof (cases r)
    case (Inl e)
    then show ?thesis using s' by (simp add: t)
  next
    case (Inr u)
    then show ?thesis using Cons.IH [OF s'] by (simp add: t)
  qed
qed

lemma passes_preserves:
  assumes "\<And>s agentId. P s \<Longrightarrow> P (snd (tick ini agentId s))" and "P s"
  shows "P (snd (passes ini n s))"
  using assms(2)
proof (induction n arbitrary: s)
  case 0
  then show ?case by simp
next
  case (Suc n)
  obtain r s' where t: "pass ini (keys ini) s = (r, s')" by (cases "pass ini (keys ini) s")
  from pass_preserves [of P ini s "keys ini", OF assms(1) Suc.prems] have s': "P s'"
    by (simp add: t)
  show ?case
  proof (cases r)
    case (Inl e)
    then show ?thesis using s' by (simp add: t)
  next
    case (Inr u)
    then show ?thesis using Suc.IH [OF s'] by (simp add: t)
  qed
qed

lemma forces_coincident:
  "\<exists>body \<in> set (others agentId universe). distance_to self body = 0 \<Longrightarrow>
   forces agentId (m self) (x self) (y self) universe (fx, fy) = Inl ZeroDivisionError"
proof (induction universe arbitrary: fx fy)
  case Nil
  then show ?case by (simp add: others_def)
next
  case (Cons p universe)
  obtain ID body where p: "p = (ID, body)" by (cases p)
  show ?case
  proof (cases "ID = agentId")
    case True
    then have "others agentId ((ID, body) # universe) = others agentId universe"
      by (simp add: others_def)
    with Cons.prems have "\<exists>body \<in> set (others agentId universe). distance_to self body = 0"
      by (simp add: p)
    from Cons.IH [OF this] show ?thesis using True by (simp add: p)
  next
    case False
    then have o: "others agentId ((ID, body) # universe) = body # others agentId universe"
      by (simp add: others_def)
    show ?thesis
    proof (cases "distance_to self body = 0")
      case True
      then show ?thesis using False by (auto simp: p distance_to_def Let_def)
    next
      case nz: False
      with Cons.prems have "\<exists>body \<in> set (others agentId universe). distance_to self body = 0"
        by (simp add: p o)
      from Cons.IH [OF this] show ?thesis using False nz
        by (auto simp: p distance_to_def Let_def)
    qed
  qed
qed

text \<open>
  C8: when the snapshot holds another body at distance 0 from the propagated agent,
  \<open>propagate\<close> fails (Python raises \<open>ZeroDivisionError\<close> at the division by the distance,
  the fatal error the specification calls \<open>SingularityError\<close>) and returns no state; the
  tick that called it leaves with that error, and the store and the cursors are as they
  were: no state is committed.
\<close>

theorem propagate_coincident_fails:
  assumes "map_of universe agentId = Some self"
    and "\<exists>body \<in> set (others agentId universe). distance_to self body = 0"
  shows "propagate agentId universe = Inl ZeroDivisionError
    \<and> (\<forall>ini s t. map_of (times s) agentId = Some t \<and> read (qstore s) (t - 0.001) = universe \<longrightarrow>
          tick ini agentId s =
            (if set (keys universe) = set (keys ini) then (Inl ZeroDivisionError, s)
             else (Inr (), s)))"
proof -
  from forces_coincident [OF assms(2), of 0 0]
  have p: "propagate agentId universe = Inl ZeroDivisionError"
    using assms(1) by (simp add: propagate_def)
  then show ?thesis by (auto simp: tick_eq)
qed

theorem propagate_coincident_witness:
  "propagate ''A''
     [(''A'', \<lparr>name = ''a'', time = 0, time_step = 1, x = 1, y = 2, vx = 0, vy = 0, m = 1\<rparr>),
      (''B'', \<lparr>name = ''b'', time = 0, time_step = 1, x = 1, y = 2, vx = 0, vy = 0, m = 1\<rparr>)]
     = Inl ZeroDivisionError
   \<and> tick
       [(''A'', \<lparr>name = ''a'', time = 0, time_step = 1, x = 1, y = 2, vx = 0, vy = 0, m = 1\<rparr>),
        (''B'', \<lparr>name = ''b'', time = 0, time_step = 1, x = 1, y = 2, vx = 0, vy = 0, m = 1\<rparr>)]
       ''A''
       (start
         [(''A'', \<lparr>name = ''a'', time = 0, time_step = 1, x = 1, y = 2, vx = 0, vy = 0, m = 1\<rparr>),
          (''B'', \<lparr>name = ''b'', time = 0, time_step = 1, x = 1, y = 2, vx = 0, vy = 0, m = 1\<rparr>)])
     = (Inl ZeroDivisionError,
        start
         [(''A'', \<lparr>name = ''a'', time = 0, time_step = 1, x = 1, y = 2, vx = 0, vy = 0, m = 1\<rparr>),
          (''B'', \<lparr>name = ''b'', time = 0, time_step = 1, x = 1, y = 2, vx = 0, vy = 0, m = 1\<rparr>)])"
proof -
  let ?a = "\<lparr>name = ''a'', time = 0, time_step = 1, x = 1, y = 2, vx = 0, vy = 0, m = 1\<rparr>"
  let ?b = "\<lparr>name = ''b'', time = 0, time_step = 1, x = 1, y = 2, vx = 0, vy = 0, m = 1\<rparr>"
  let ?u = "[(''A'', ?a), (''B'', ?b)]"
  have 1: "map_of ?u ''A'' = Some ?a" by simp
  have 2: "\<exists>body \<in> set (others ''A'' ?u). distance_to ?a body = 0"
    by (simp add: others_def distance_to_def)
  have 3: "map_of (times (start ?u)) ''A'' = Some 0 \<and> read (qstore (start ?u)) (0 - 0.001) = ?u"
    by (simp add: start_eq read_def getitem_def merge_def dict_or_def)
  from propagate_coincident_fails [OF 1 2] 3 show ?thesis
    by (simp add: keys_def)
qed

section \<open>The number of records\<close>

text \<open>The ticks that the gate blocks in a pass over \<open>agents\<close>, and in \<open>n\<close> passes.\<close>

fun blocked_in_pass :: "(string, real AgentState) dict \<Rightarrow> string list \<Rightarrow> real sim \<Rightarrow> nat" where
  "blocked_in_pass ini [] s = 0"
| "blocked_in_pass ini (agentId # rest) s =
     (case tick ini agentId s of
        (Inl e, s') \<Rightarrow> 0
      | (Inr u, s') \<Rightarrow> (if blocked ini agentId s then 1 else 0) + blocked_in_pass ini rest s')"

fun blocked_in_passes :: "(string, real AgentState) dict \<Rightarrow> nat \<Rightarrow> real sim \<Rightarrow> nat" where
  "blocked_in_passes ini 0 s = 0"
| "blocked_in_passes ini (Suc n) s =
     (case pass ini (keys ini) s of
        (Inl e, s') \<Rightarrow> 0
      | (Inr u, s') \<Rightarrow> blocked_in_pass ini (keys ini) s + blocked_in_passes ini n s')"

definition records :: "real sim \<Rightarrow> nat" where
  "records s = length (store (qstore s))"

lemma records_committed: "records (committed s agentId t newState) = records s + 1"
  by (simp add: records_def committed_def)

lemma tick_records:
  "records (snd (tick ini agentId s)) \<le> records s + 1
   \<and> (fst (tick ini agentId s) = Inr () \<longrightarrow>
        records (snd (tick ini agentId s)) + (if blocked ini agentId s then 1 else 0)
          = records s + 1)"
  using tick_cases [of ini agentId s] by (auto simp: records_committed)

lemma pass_records:
  "records (snd (pass ini agents s)) \<le> records s + length agents
   \<and> (fst (pass ini agents s) = Inr () \<longrightarrow>
        records (snd (pass ini agents s)) + blocked_in_pass ini agents s
          = records s + length agents)"
proof (induction agents arbitrary: s)
  case Nil
  then show ?case by simp
next
  case (Cons agentId agents)
  obtain r s' where t: "tick ini agentId s = (r, s')" by (cases "tick ini agentId s")
  from tick_records [of ini agentId s]
  have le: "records s' \<le> records s + 1"
    and eq: "r = Inr () \<longrightarrow> records s' + (if blocked ini agentId s then 1 else 0) = records s + 1"
    by (simp_all add: t)
  show ?case
  proof (cases r)
    case (Inl e)
    then show ?thesis using le by (simp add: t)
  next
    case (Inr u)
    with eq have eq': "records s' + (if blocked ini agentId s then 1 else 0) = records s + 1"
      by simp
    from Cons.IH [of s'] le eq' show ?thesis by (auto simp: t Inr)
  qed
qed

lemma passes_records:
  "records (snd (passes ini n s)) \<le> records s + n * length ini
   \<and> (fst (passes ini n s) = Inr () \<longrightarrow>
        records (snd (passes ini n s)) + blocked_in_passes ini n s
          = records s + n * length ini)"
proof (induction n arbitrary: s)
  case 0
  then show ?case by simp
next
  case (Suc n)
  obtain r s' where t: "pass ini (keys ini) s = (r, s')" by (cases "pass ini (keys ini) s")
  have len: "length (keys ini) = length ini" by (simp add: keys_def)
  from pass_records [of ini "keys ini" s]
  have le: "records s' \<le> records s + length ini"
    and eq: "r = Inr () \<longrightarrow> records s' + blocked_in_pass ini (keys ini) s = records s + length ini"
    by (simp_all add: t len)
  show ?case
  proof (cases r)
    case (Inl e)
    then show ?thesis using le by (simp add: t)
  next
    case (Inr u)
    with eq have eq': "records s' + blocked_in_pass ini (keys ini) s = records s + length ini"
      by simp
    from Suc.IH [of s'] le eq' show ?thesis by (auto simp: t Inr)
  qed
qed

text \<open>
  C9 (amended): \<open>n\<close> scheduling passes over the \<open>k\<close> agents of the seed insert at most \<open>n * k\<close>
  records after the seed record, also when an exception ends the run; when the passes
  have all run, they have inserted one record for every tick but those the gate blocked,
  so fewer than \<open>n * k\<close> only when a tick was blocked.
\<close>

theorem run_records_budget:
  "length (store (qstore (snd (run ini n)))) \<le> 1 + n * length ini
   \<and> (fst (run ini n) = Inr () \<longrightarrow>
        length (store (qstore (snd (run ini n)))) + blocked_in_passes ini n (start ini)
          = 1 + n * length ini)"
  using passes_records [of ini n "start ini"]
  by (simp add: run_def records_def start_eq)

lemma tick_blocked: "blocked ini agentId s \<Longrightarrow> tick ini agentId s = (Inr (), s)"
  by (auto simp: tick_eq blocked_def split: option.splits)

text \<open>
  A seed of two agents, the second with a seed time no record covers: its ticks are
  blocked.
\<close>

definition two_late :: "(string, real AgentState) dict" where
  "two_late =
     [(''A'', \<lparr>name = ''a'', time = 0, time_step = 1, x = 0, y = 0, vx = 0, vy = 0, m = 1\<rparr>),
      (''B'', \<lparr>name = ''b'', time = 5, time_step = 1, x = 3, y = 4, vx = 0, vy = 0, m = 5\<rparr>)]"

definition two_late_1 :: "real sim" where
  "two_late_1 = committed (start two_late) ''A'' 0
     \<lparr>name = ''a'', time = 1, time_step = 1,
      x = 3 / 2 * gravitational_constant, y = 2 * gravitational_constant,
      vx = 3 * gravitational_constant, vy = 4 * gravitational_constant, m = 1\<rparr>"

lemma two_late_tick_A: "tick two_late ''A'' (start two_late) = (Inr (), two_late_1)"
  by (simp add: two_late_1_def two_late_def tick_eq start_eq read_def getitem_def merge_def
        dict_or_def propagate_def keys_def Let_def sqrt_25)

lemma two_late_blocked_A: "\<not> blocked two_late ''A'' (start two_late)"
  by (simp add: two_late_def blocked_def start_eq read_def getitem_def merge_def dict_or_def
        keys_def)

lemma two_late_blocked_B: "blocked two_late ''B'' two_late_1"
  by (simp add: two_late_1_def two_late_def blocked_def committed_def start_eq read_def
        getitem_def merge_def dict_or_def keys_def)

lemma two_late_tick_B: "tick two_late ''B'' two_late_1 = (Inr (), two_late_1)"
  using two_late_blocked_B by (rule tick_blocked)

lemma two_late_keys: "keys two_late = [''A'', ''B'']"
  by (simp add: two_late_def keys_def)

lemma two_late_pass: "pass two_late (keys two_late) (start two_late) = (Inr (), two_late_1)"
  by (simp add: two_late_keys two_late_tick_A two_late_tick_B)

theorem run_records_budget_witness:
  "fst (run two_late 1) = Inr ()
   \<and> length (store (qstore (snd (run two_late 1)))) = 2
   \<and> blocked_in_passes two_late 1 (start two_late) = 1"
proof -
  have r: "fst (run two_late 1) = Inr ()"
    by (simp add: run_def two_late_pass)
  have b: "blocked_in_passes two_late 1 (start two_late) = 1"
    by (simp add: two_late_pass)
       (simp add: two_late_keys two_late_tick_A two_late_tick_B two_late_blocked_A
          two_late_blocked_B)
  from run_records_budget [of two_late 1] r b show ?thesis
    by (simp add: two_late_def)
qed

text \<open>A seed of two bodies at one position: the first tick raises.\<close>

definition two_coincident :: "(string, real AgentState) dict" where
  "two_coincident =
     [(''A'', \<lparr>name = ''a'', time = 0, time_step = 1, x = 1, y = 2, vx = 0, vy = 0, m = 1\<rparr>),
      (''B'', \<lparr>name = ''b'', time = 0, time_step = 1, x = 1, y = 2, vx = 0, vy = 0, m = 1\<rparr>)]"

lemma two_coincident_blocked_A: "\<not> blocked two_coincident ''A'' (start two_coincident)"
  by (simp add: two_coincident_def blocked_def start_eq read_def getitem_def merge_def
        dict_or_def keys_def)

lemma two_coincident_tick_A:
  "tick two_coincident ''A'' (start two_coincident) = (Inl ZeroDivisionError, start two_coincident)"
  by (simp add: two_coincident_def start_eq read_def getitem_def merge_def dict_or_def
        keys_def tick_eq propagate_def)

lemma two_coincident_keys: "keys two_coincident = [''A'', ''B'']"
  by (simp add: two_coincident_def keys_def)

text \<open>
  C9 as stated fails for a run that an exception ends: with the two bodies at one position
  the first tick raises \<open>ZeroDivisionError\<close>, so one pass over two agents leaves the store
  with the seed record alone, fewer than the \<open>1 + 1 * 2\<close> records of a full pass, and no
  tick was blocked by the gate.
\<close>

theorem run_fewer_records_unblocked_counterexample:
  "fst (run two_coincident 1) = Inl ZeroDivisionError
   \<and> length (store (qstore (snd (run two_coincident 1)))) = 1
   \<and> 1 + 1 * length two_coincident = 3
   \<and> \<not> blocked two_coincident ''A'' (start two_coincident)
   \<and> blocked_in_passes two_coincident 1 (start two_coincident) = 0"
proof -
  have p: "pass two_coincident (keys two_coincident) (start two_coincident)
      = (Inl ZeroDivisionError, start two_coincident)"
    by (simp add: two_coincident_keys two_coincident_tick_A)
  have r: "run two_coincident 1 = (Inl ZeroDivisionError, start two_coincident)"
    by (simp add: run_def p)
  have l: "length (store (qstore (start two_coincident))) = 1"
    by (simp add: start_eq)
  have k: "1 + 1 * length two_coincident = 3"
    by (simp add: two_coincident_def)
  have b: "blocked_in_passes two_coincident 1 (start two_coincident) = 0"
    by (simp add: p)
  from r l k b two_coincident_blocked_A show ?thesis by simp
qed

section \<open>The records of a run\<close>

text \<open>
  What holds of the store and the cursors in every state the scheduler reaches: the first
  record is the seed record, every later record was committed by a tick (one agent of the
  seed, a state whose \<open>time\<close> is the record's \<open>high\<close>, whose \<open>time_step\<close> is 1.0 and whose
  mass is the seed's), and the cursors are those of the seed's agents.
\<close>

definition seed_rec ::
  "(string, real AgentState) dict \<Rightarrow> real \<times> real \<times> (string, real AgentState) dict" where
  "seed_rec ini = (- 999999999, 0, ini)"

definition commit_rec ::
  "(string, real AgentState) dict \<Rightarrow> real \<times> real \<times> (string, real AgentState) dict \<Rightarrow> bool" where
  "commit_rec ini r =
     (\<exists>l h agentId newState seed.
        r = (l, h, [(agentId, newState)]) \<and> l < h \<and> time newState = h
        \<and> time_step newState = 1 \<and> map_of ini agentId = Some seed \<and> m newState = m seed)"

definition inv0 :: "(string, real AgentState) dict \<Rightarrow> real sim \<Rightarrow> bool" where
  "inv0 ini s =
     ((\<exists>rest. store (qstore s) = seed_rec ini # rest \<and> (\<forall>r \<in> set rest. commit_rec ini r))
      \<and> set (keys (times s)) = set (keys ini))"

lemma keys_times_start: "keys (map (\<lambda>(agentId, state). (agentId, time state)) ini) = keys ini"
  by (induction ini) (auto simp: keys_def)

lemma inv0_start: "inv0 ini (start ini)"
  by (simp add: inv0_def start_eq seed_rec_def keys_times_start)

lemma foldl_map_add_Some:
  "foldl (++) acc ms k = Some v \<Longrightarrow> acc k = Some v \<or> (\<exists>mp \<in> set ms. mp k = Some v)"
proof (induction ms arbitrary: acc)
  case Nil
  then show ?case by simp
next
  case (Cons mp ms)
  from Cons.prems have "foldl (++) (acc ++ mp) ms k = Some v" by simp
  from Cons.IH [OF this] show ?case by (auto simp: map_add_Some_iff)
qed

lemma merge_Some:
  assumes "\<forall>d \<in> set ds. distinct (keys d)" and "map_of (merge ds) k = Some v"
  shows "\<exists>d \<in> set ds. map_of d k = Some v"
proof -
  from assms have "foldl (++) Map.empty (map map_of ds) k = Some v"
    by (simp add: map_of_merge)
  from foldl_map_add_Some [OF this] show ?thesis by auto
qed

lemma map_of_keys: "map_of d k = Some v \<Longrightarrow> k \<in> set (keys d)"
  by (auto simp: keys_def dest: map_of_SomeD intro: rev_image_eqI)

lemma commit_rec_keys:
  "commit_rec ini r \<Longrightarrow> set (keys (rec_value r)) \<subseteq> set (keys ini)"
  by (auto simp: commit_rec_def rec_value_def keys_Cons keys_Nil map_of_keys)

lemma commit_rec_distinct: "commit_rec ini r \<Longrightarrow> distinct (keys (rec_value r))"
  by (auto simp: commit_rec_def rec_value_def keys_Cons keys_Nil)

lemma rec_value_seed: "rec_value (seed_rec ini) = ini"
  by (simp add: rec_value_def seed_rec_def)

text \<open>The values that a read of a reachable store merges.\<close>

lemma inv0_read_values:
  assumes "inv0 ini s" and "d \<in> set (map rec_value (filter (covers p) (store (qstore s))))"
  shows "d = ini \<or> (\<exists>r \<in> set (tl (store (qstore s))). covers p r \<and> commit_rec ini r \<and> d = rec_value r)"
proof -
  from assms(1) obtain rest where st: "store (qstore s) = seed_rec ini # rest"
    and rest: "\<forall>r \<in> set rest. commit_rec ini r"
    by (auto simp: inv0_def)
  from assms(2) obtain r where r0: "r \<in> set (store (qstore s))"
    and r: "covers p r" "d = rec_value r"
    by auto
  show ?thesis
  proof (cases "r = seed_rec ini")
    case True
    then show ?thesis using r by (simp add: rec_value_seed)
  next
    case False
    with r0 have "r \<in> set rest" by (simp add: st)
    then show ?thesis using r rest by (auto simp: st)
  qed
qed

lemma inv0_read_keys:
  assumes "inv0 ini s"
  shows "set (keys (read (qstore s) p)) \<subseteq> set (keys ini)"
proof
  fix k assume "k \<in> set (keys (read (qstore s) p))"
  then obtain d where d: "d \<in> set (map rec_value (filter (covers p) (store (qstore s))))"
    and k: "k \<in> set (keys d)"
    by (auto simp: read_eq keys_merge)
  from inv0_read_values [OF assms d] show "k \<in> set (keys ini)"
    using k by (blast dest: commit_rec_keys)
qed

lemma inv0_read_distinct:
  assumes "inv0 ini s" and "distinct (keys ini)"
  shows "\<forall>d \<in> set (map rec_value (filter (covers p) (store (qstore s)))). distinct (keys d)"
proof
  fix d assume "d \<in> set (map rec_value (filter (covers p) (store (qstore s))))"
  from inv0_read_values [OF assms(1) this] show "distinct (keys d)"
    using assms(2) by (blast dest: commit_rec_distinct)
qed

lemma inv0_read_mass:
  assumes "inv0 ini s" and "distinct (keys ini)"
    and "map_of (read (qstore s) p) agentId = Some self"
  shows "\<exists>seed. map_of ini agentId = Some seed \<and> m self = m seed"
proof -
  from merge_Some [OF inv0_read_distinct [OF assms(1,2)] assms(3) [unfolded read_eq]]
  obtain d where d: "d \<in> set (map rec_value (filter (covers p) (store (qstore s))))"
    and self: "map_of d agentId = Some self"
    by auto
  from inv0_read_values [OF assms(1) d] show ?thesis
  proof
    assume "d = ini"
    with self show ?thesis by simp
  next
    assume "\<exists>r \<in> set (tl (store (qstore s))). covers p r \<and> commit_rec ini r \<and> d = rec_value r"
    then obtain r where "commit_rec ini r" "d = rec_value r" by auto
    with self show ?thesis
      by (auto simp: commit_rec_def rec_value_def split: if_splits)
  qed
qed

lemma inv0_committed:
  assumes "inv0 ini s" and "distinct (keys ini)"
    and "map_of (times s) agentId = Some t"
    and "propagate agentId (read (qstore s) (t - 0.001)) = Inr newState"
    and "t < time newState"
  shows "inv0 ini (committed s agentId t newState)"
proof -
  from propagate_Inr [OF assms(4)] obtain self
    where self: "map_of (read (qstore s) (t - 0.001)) agentId = Some self"
      and ns: "time_step newState = 1" "m newState = m self"
    by auto
  from inv0_read_mass [OF assms(1,2) self] obtain seed
    where seed: "map_of ini agentId = Some seed" "m self = m seed"
    by auto
  have rec: "commit_rec ini (t, time newState, [(agentId, newState)])"
    using assms(5) ns seed by (simp add: commit_rec_def)
  from seed have "agentId \<in> set (keys ini)" by (simp add: map_of_keys)
  then show ?thesis
    using assms(1) rec
    by (auto simp: inv0_def committed_def keys_dict_set)
qed

lemma inv0_tick:
  assumes "distinct (keys ini)" and "inv0 ini s"
  shows "inv0 ini (snd (tick ini agentId s))"
  using tick_cases [of ini agentId s] assms inv0_committed [of ini s agentId]
  by auto

lemma inv0_pass:
  assumes "distinct (keys ini)"
  shows "inv0 ini (snd (pass ini schedule (start ini)))"
  by (rule pass_preserves [where P = "inv0 ini"]) (simp_all add: inv0_tick assms inv0_start)

lemma inv0_run:
  assumes "distinct (keys ini)"
  shows "inv0 ini (snd (run ini n))"
  unfolding run_def
  by (rule passes_preserves [where P = "inv0 ini"]) (simp_all add: inv0_tick assms inv0_start)

text \<open>
  C5 (amended): in a tick for agent \<open>a\<close> with cursor \<open>t\<close>, in any state the scheduler reaches,
  the scheduler reads the store at \<open>t - 0.001\<close> and merges the result into a snapshot. If the
  snapshot's keys do not include every agent of the seed, the store and all cursors are
  unchanged. If they do and \<open>propagate\<close> returns a state \<open>newState\<close> with \<open>t < newState.time\<close>,
  the tick appends exactly one record \<open>(t, newState.time)\<close> whose value maps only \<open>a\<close> to
  \<open>newState\<close>, and sets the cursor of \<open>a\<close> to \<open>newState.time\<close>. If they do and \<open>propagate\<close>
  raises, or \<open>newState.time \<le> t\<close>, the tick raises and the store and all cursors are
  unchanged.
\<close>

theorem tick_gate_commit:
  assumes "distinct (keys ini)"
    and "s = snd (pass ini schedule (start ini))"
    and "map_of (times s) agentId = Some t"
  shows "tick ini agentId s =
     (let snapshot = read (qstore s) (t - 0.001)
      in if set (keys ini) \<subseteq> set (keys snapshot) then
           (case propagate agentId snapshot of
              Inl e \<Rightarrow> (Inl e, s)
            | Inr newState \<Rightarrow>
                if t < time newState then
                  (Inr (),
                   s\<lparr>qstore := (qstore s)\<lparr>store := store (qstore s)
                                    @ [(t, time newState, [(agentId, newState)])]\<rparr>,
                     times := dict_set (times s) agentId (time newState)\<rparr>)
                else (Inl InvalidRange, s))
         else (Inr (), s))"
proof -
  have "inv0 ini s"
    unfolding assms(2) using assms(1) by (rule inv0_pass)
  then have "set (keys (read (qstore s) (t - 0.001))) \<subseteq> set (keys ini)"
    by (rule inv0_read_keys)
  then have "(set (keys ini) \<subseteq> set (keys (read (qstore s) (t - 0.001))))
      = (set (keys (read (qstore s) (t - 0.001))) = set (keys ini))"
    by auto
  then show ?thesis
    using assms(3) by (simp add: tick_eq Let_def committed_def split: sum.splits)
qed

theorem tick_gate_commit_witness:
  "tick two_late ''A'' (start two_late) =
     (Inr (),
      \<lparr>qstore = \<lparr>store = [(- 999999999, 0, two_late),
          (0, 1, [(''A'', \<lparr>name = ''a'', time = 1, time_step = 1,
             x = 3 / 2 * gravitational_constant, y = 2 * gravitational_constant,
             vx = 3 * gravitational_constant, vy = 4 * gravitational_constant, m = 1\<rparr>)])]\<rparr>,
       times = [(''A'', 1), (''B'', 5)]\<rparr>)
   \<and> tick two_late ''B'' two_late_1 = (Inr (), two_late_1)"
proof -
  have d: "distinct (keys two_late)" by (simp add: two_late_keys)
  have s0: "start two_late = snd (pass two_late [] (start two_late))" by simp
  have s1: "two_late_1 = snd (pass two_late [''A''] (start two_late))"
    by (simp add: two_late_tick_A)
  have c0: "map_of (times (start two_late)) ''A'' = Some 0"
    by (simp add: start_eq two_late_def)
  have c1: "map_of (times two_late_1) ''B'' = Some 5"
    by (simp add: two_late_1_def committed_def start_eq two_late_def)
  have r0: "read (qstore (start two_late)) (0 - 0.001) = two_late"
    by (simp add: start_eq read_def getitem_def merge_def dict_or_def two_late_def)
  have r1: "read (qstore two_late_1) (5 - 0.001) = []"
    by (simp add: two_late_1_def committed_def start_eq read_def getitem_def merge_def)
  have p0: "propagate ''A'' two_late = Inr \<lparr>name = ''a'', time = 1, time_step = 1,
             x = 3 / 2 * gravitational_constant, y = 2 * gravitational_constant,
             vx = 3 * gravitational_constant, vy = 4 * gravitational_constant, m = 1\<rparr>"
    by (simp add: two_late_def propagate_def sqrt_25 Let_def)
  have A: "tick two_late ''A'' (start two_late) =
     (Inr (),
      \<lparr>qstore = \<lparr>store = [(- 999999999, 0, two_late),
          (0, 1, [(''A'', \<lparr>name = ''a'', time = 1, time_step = 1,
             x = 3 / 2 * gravitational_constant, y = 2 * gravitational_constant,
             vx = 3 * gravitational_constant, vy = 4 * gravitational_constant, m = 1\<rparr>)])]\<rparr>,
       times = [(''A'', 1), (''B'', 5)]\<rparr>)"
    using tick_gate_commit [OF d s0 c0, unfolded r0 Let_def p0]
    by (simp add: start_eq) (simp add: two_late_def)
  have B: "tick two_late ''B'' two_late_1 = (Inr (), two_late_1)"
    using tick_gate_commit [OF d s1 c1, unfolded r1 Let_def]
    by (simp add: two_late_keys keys_Nil)
  from A B show ?thesis by (rule conjI)
qed

text \<open>
  C5 as stated fails where the gate is open and the tick raises: with a seed of two bodies
  at one position, the snapshot of the first tick holds every agent, \<open>propagate\<close> raises
  \<open>ZeroDivisionError\<close>, and no record is inserted and no cursor is moved.
\<close>

theorem tick_gate_open_not_advanced_counterexample:
  "map_of (times (start two_coincident)) ''A'' = Some 0
   \<and> set (keys two_coincident)
        \<subseteq> set (keys (read (qstore (start two_coincident)) (0 - 0.001)))
   \<and> tick two_coincident ''A'' (start two_coincident)
        = (Inl ZeroDivisionError, start two_coincident)"
  by (simp add: two_coincident_def start_eq read_def getitem_def merge_def dict_or_def
        keys_def tick_eq propagate_def)

text \<open>
  C7: in every state of a run, every state that a record of the store holds for an agent
  has the mass of that agent's seed state.
\<close>

theorem mass_conserved:
  assumes "distinct (keys ini)"
    and "s = snd (run ini n) \<or> s = snd (pass ini schedule (start ini))"
  shows "\<forall>(l, h, v) \<in> set (store (qstore s)). \<forall>(agentId, state) \<in> set v.
           map_option m (map_of ini agentId) = Some (m state)"
proof -
  from assms have "inv0 ini s"
    using inv0_run [of ini n] inv0_pass [of ini schedule] by auto
  then obtain rest where st: "store (qstore s) = seed_rec ini # rest"
    and rest: "\<forall>r \<in> set rest. commit_rec ini r"
    by (auto simp: inv0_def)
  have seed: "\<forall>(agentId, state) \<in> set ini. map_option m (map_of ini agentId) = Some (m state)"
    using assms(1) by (auto simp: keys_def)
  have later: "\<forall>(l, h, v) \<in> set rest. \<forall>(agentId, state) \<in> set v.
      map_option m (map_of ini agentId) = Some (m state)"
  proof
    fix r assume "r \<in> set rest"
    with rest have "commit_rec ini r" by blast
    then show "case r of (l, h, v) \<Rightarrow> \<forall>(agentId, state) \<in> set v.
      map_option m (map_of ini agentId) = Some (m state)"
      by (auto simp: commit_rec_def)
  qed
  from seed later show ?thesis by (simp add: st seed_rec_def)
qed

theorem mass_conserved_witness:
  "(0, 1, [(''A'', \<lparr>name = ''a'', time = 1, time_step = 1,
             x = 3 / 2 * gravitational_constant, y = 2 * gravitational_constant,
             vx = 3 * gravitational_constant, vy = 4 * gravitational_constant, m = 1\<rparr>)])
     \<in> set (store (qstore (snd (run two_late 1))))
   \<and> map_option m (map_of two_late ''A'') = Some 1
   \<and> map_option m (map_of two_late ''B'') = Some 5"
proof -
  have d: "distinct (keys two_late)" by (simp add: two_late_keys)
  have r: "snd (run two_late 1) = two_late_1"
    by (simp add: run_def two_late_pass)
  have mem: "(0, 1, [(''A'', \<lparr>name = ''a'', time = 1, time_step = 1,
             x = 3 / 2 * gravitational_constant, y = 2 * gravitational_constant,
             vx = 3 * gravitational_constant, vy = 4 * gravitational_constant, m = 1\<rparr>)])
     \<in> set (store (qstore (snd (run two_late 1))))"
    by (simp only: r) (simp add: two_late_1_def committed_def)
  have mem0: "(- 999999999, 0, two_late) \<in> set (store (qstore (snd (run two_late 1))))"
    by (simp only: r) (simp add: two_late_1_def committed_def start_eq)
  have B: "(''B'', \<lparr>name = ''b'', time = 5, time_step = 1, x = 3, y = 4, vx = 0, vy = 0, m = 5\<rparr>)
     \<in> set two_late"
    by (simp add: two_late_def)
  note th = mass_conserved [OF d disjI1 [OF refl], where n = 1]
  from th mem have "map_option m (map_of two_late ''A'') = Some 1" by fastforce
  moreover from th mem0 B have "map_option m (map_of two_late ''B'') = Some 5" by fastforce
  ultimately show ?thesis using mem by simp
qed

section \<open>The scheduler over an arbitrary arithmetic\<close>

text \<open>
  The initialisation and the loops of the module over the arithmetic of \<open>propagate_with\<close>:
  the times are numbers of the arithmetic, compared by \<open><\<close> and \<open>\<le>\<close> of their type, of which
  nothing is assumed here. The insertion of the seed record can raise, and so can the
  subtraction \<open>t - 0.001\<close>; \<open>times\<close> is assigned after the seed record is inserted.
\<close>

definition start_with ::
  "'n::ord arith \<Rightarrow> (string, 'n AgentState) dict \<Rightarrow> (error + unit) \<times> 'n sim" where
  "start_with A ini =
     (case setitem QRangeStore_init (int_neg_999999999 A, int_0 A) ini of
        (Inl e, st) \<Rightarrow> (Inl e, \<lparr>qstore = st, times = []\<rparr>)
      | (Inr u, st) \<Rightarrow>
          (Inr (), \<lparr>qstore = st,
                    times = map (\<lambda>(agentId, state). (agentId, time state)) ini\<rparr>))"

definition tick_with ::
  "'n::ord arith \<Rightarrow> (string, 'n AgentState) dict \<Rightarrow> string \<Rightarrow> 'n sim \<Rightarrow>
     (error + unit) \<times> 'n sim" where
  "tick_with A ini agentId s =
     (case map_of (times s) agentId of
        None \<Rightarrow> (Inl KeyError, s)
      | Some t \<Rightarrow>
          (case op_sub A t (float_0_001 A) of
             Inl e \<Rightarrow> (Inl e, s)
           | Inr query \<Rightarrow>
               let universe = read (qstore s) query
               in if set (keys universe) = set (keys ini) then
                    (case propagate_with A agentId universe of
                       Inl e \<Rightarrow> (Inl e, s)
                     | Inr newState \<Rightarrow>
                         (case setitem (qstore s) (t, time newState) [(agentId, newState)] of
                            (Inl e, st) \<Rightarrow> (Inl e, s\<lparr>qstore := st\<rparr>)
                          | (Inr u, st) \<Rightarrow>
                              (Inr (), s\<lparr>qstore := st,
                                          times := dict_set (times s) agentId
                                                     (time newState)\<rparr>)))
                  else (Inr (), s)))"

fun pass_with ::
  "'n::ord arith \<Rightarrow> (string, 'n AgentState) dict \<Rightarrow> string list \<Rightarrow> 'n sim \<Rightarrow>
     (error + unit) \<times> 'n sim" where
  "pass_with A ini [] s = (Inr (), s)"
| "pass_with A ini (agentId # rest) s =
     (case tick_with A ini agentId s of
        (Inl e, s') \<Rightarrow> (Inl e, s')
      | (Inr u, s') \<Rightarrow> pass_with A ini rest s')"

fun passes_with ::
  "'n::ord arith \<Rightarrow> (string, 'n AgentState) dict \<Rightarrow> nat \<Rightarrow> 'n sim \<Rightarrow>
     (error + unit) \<times> 'n sim" where
  "passes_with A ini 0 s = (Inr (), s)"
| "passes_with A ini (Suc n) s =
     (case pass_with A ini (keys ini) s of
        (Inl e, s') \<Rightarrow> (Inl e, s')
      | (Inr u, s') \<Rightarrow> passes_with A ini n s')"

definition run_with ::
  "'n::ord arith \<Rightarrow> (string, 'n AgentState) dict \<Rightarrow> nat \<Rightarrow> (error + unit) \<times> 'n sim" where
  "run_with A ini n =
     (case start_with A ini of
        (Inl e, s) \<Rightarrow> (Inl e, s)
      | (Inr u, s) \<Rightarrow> passes_with A ini n s)"

text \<open>Over the reals they are \<open>start\<close>, \<open>tick\<close>, \<open>pass\<close>, \<open>passes\<close> and \<open>run\<close>.\<close>

lemma start_exact: "start_with real_arith ini = (Inr (), start ini)"
  by (simp add: start_with_def start_def setitem_def real_arith_def)

lemma tick_exact: "tick_with real_arith ini agentId s = tick ini agentId s"
proof -
  have sub: "op_sub real_arith t (float_0_001 real_arith) = Inr (t - 0.001)" for t
    by (simp add: real_arith_def)
  show ?thesis
    by (simp add: tick_with_def tick_def sub propagate_exact
          cong: if_cong option.case_cong sum.case_cong)
qed

lemma pass_exact: "pass_with real_arith ini agents s = pass ini agents s"
  by (induction agents arbitrary: s) (auto simp: tick_exact split: prod.splits sum.splits)

lemma passes_exact: "passes_with real_arith ini n s = passes ini n s"
  by (induction n arbitrary: s) (auto simp: pass_exact split: prod.splits sum.splits)

lemma run_exact: "run_with real_arith ini n = run ini n"
  by (simp add: run_with_def run_def start_exact passes_exact)

text \<open>
  What the comparison of Python's numbers satisfies, \<open>nan\<close> included: \<open><\<close> is transitive and
  irreflexive, and \<open>-999999999 < 0\<close>.
\<close>

definition numbers_ordered :: "'n::ord arith \<Rightarrow> bool" where
  "numbers_ordered A =
     ((\<forall>a b c :: 'n. a < b \<longrightarrow> b < c \<longrightarrow> a < c) \<and> (\<forall>a :: 'n. \<not> a < a)
      \<and> int_neg_999999999 A < int_0 A)"

lemma real_ordered: "numbers_ordered real_arith"
  by (simp add: numbers_ordered_def real_arith_def)

lemma ordered_trans:
  "numbers_ordered (A :: 'n::ord arith) \<Longrightarrow> (a :: 'n) < b \<Longrightarrow> b < c \<Longrightarrow> a < c"
  unfolding numbers_ordered_def by blast

lemma ordered_irrefl: "numbers_ordered (A :: 'n::ord arith) \<Longrightarrow> \<not> (a :: 'n) < a"
  by (simp add: numbers_ordered_def)

lemma start_with_eq:
  "numbers_ordered A \<Longrightarrow>
   start_with A ini =
     (Inr (), \<lparr>qstore = \<lparr>store = [(int_neg_999999999 A, int_0 A, ini)]\<rparr>,
               times = map (\<lambda>(agentId, state). (agentId, time state)) ini\<rparr>)"
  by (simp add: start_with_def setitem_def QRangeStore_init_def numbers_ordered_def)

lemma propagate_with_Inr:
  "propagate_with A agentId universe = Inr newState \<Longrightarrow>
     \<exists>self. map_of universe agentId = Some self
       \<and> op_add A (time self) (time_step self) = Inr (time newState)
       \<and> time_step newState = float_1_0 A"
  by (auto simp: propagate_with_def and_then_returns split: option.splits prod.splits)

lemma tick_with_eq:
  "tick_with A ini agentId s =
     (case map_of (times s) agentId of
        None \<Rightarrow> (Inl KeyError, s)
      | Some t \<Rightarrow>
          (case op_sub A t (float_0_001 A) of
             Inl e \<Rightarrow> (Inl e, s)
           | Inr query \<Rightarrow>
               if set (keys (read (qstore s) query)) = set (keys ini) then
                 (case propagate_with A agentId (read (qstore s) query) of
                    Inl e \<Rightarrow> (Inl e, s)
                  | Inr newState \<Rightarrow>
                      if t < time newState then (Inr (), committed s agentId t newState)
                      else (Inl InvalidRange, s))
               else (Inr (), s)))"
  by (simp add: tick_with_def Let_def setitem_def committed_def split: option.splits sum.splits)

lemma tick_with_cases:
  "snd (tick_with A ini agentId s) = s
   \<or> (\<exists>t query newState. map_of (times s) agentId = Some t
        \<and> op_sub A t (float_0_001 A) = Inr query
        \<and> propagate_with A agentId (read (qstore s) query) = Inr newState
        \<and> t < time newState
        \<and> tick_with A ini agentId s = (Inr (), committed s agentId t newState))"
  by (auto simp: tick_with_eq split: option.splits sum.splits)

lemma tick_with_raises:
  "fst (tick_with A ini agentId s) = Inl e \<Longrightarrow> snd (tick_with A ini agentId s) = s"
  by (auto simp: tick_with_eq split: option.splits sum.splits if_splits)

lemma pass_with_preserves:
  assumes "\<And>s agentId. P s \<Longrightarrow> P (snd (tick_with A ini agentId s))" and "P s"
  shows "P (snd (pass_with A ini agents s))"
  using assms(2)
proof (induction agents arbitrary: s)
  case Nil
  then show ?case by simp
next
  case (Cons agentId agents)
  obtain r s' where t: "tick_with A ini agentId s = (r, s')"
    by (cases "tick_with A ini agentId s")
  from assms(1) [OF Cons.prems, of agentId] have s': "P s'" by (simp add: t)
  show ?case
  proof (cases r)
    case (Inl e)
    then show ?thesis using s' by (simp add: t)
  next
    case (Inr u)
    then show ?thesis using Cons.IH [OF s'] by (simp add: t)
  qed
qed

lemma passes_with_preserves:
  assumes "\<And>s agentId. P s \<Longrightarrow> P (snd (tick_with A ini agentId s))" and "P s"
  shows "P (snd (passes_with A ini n s))"
  using assms(2)
proof (induction n arbitrary: s)
  case 0
  then show ?case by simp
next
  case (Suc n)
  obtain r s' where t: "pass_with A ini (keys ini) s = (r, s')"
    by (cases "pass_with A ini (keys ini) s")
  from pass_with_preserves [of P A ini s "keys ini", OF assms(1) Suc.prems] have s': "P s'"
    by (simp add: t)
  show ?case
  proof (cases r)
    case (Inl e)
    then show ?thesis using s' by (simp add: t)
  next
    case (Inr u)
    then show ?thesis using Suc.IH [OF s'] by (simp add: t)
  qed
qed

section \<open>The intervals of an agent\<close>

text \<open>
  The intervals \<open>(low, high)\<close> of the records that hold a state of one agent only, in
  insertion order; the states that a list of records holds for an agent.
\<close>

definition spans ::
  "string \<Rightarrow> ('n \<times> 'n \<times> (string, 'n AgentState) dict) list \<Rightarrow> ('n \<times> 'n) list" where
  "spans agentId rs = map (\<lambda>(l, h, v). (l, h)) (filter (\<lambda>(l, h, v). keys v = [agentId]) rs)"

definition states_of ::
  "string \<Rightarrow> ('n \<times> 'n \<times> (string, 'n AgentState) dict) list \<Rightarrow> 'n AgentState list" where
  "states_of agentId rs = [state. (l, h, v) \<leftarrow> rs, (ID, state) \<leftarrow> v, ID = agentId]"

text \<open>
  Intervals that follow one another from \<open>t\<close>: each starts where the one before ended, is
  not empty, and ends at the sum that \<open>propagate\<close> computes from its start and a step, \<open>dt\<close>
  for the first interval and 1.0 for the later ones. \<open>cursor_after\<close> is where the last one
  ends.
\<close>

fun chain :: "'n::ord arith \<Rightarrow> 'n \<Rightarrow> 'n \<Rightarrow> ('n \<times> 'n) list \<Rightarrow> bool" where
  "chain A t dt [] = True"
| "chain A t dt ((l, h) # rest) =
     (l = t \<and> l < h \<and> op_add A l dt = Inr h \<and> chain A h (float_1_0 A) rest)"

fun cursor_after :: "'n \<Rightarrow> ('n \<times> 'n) list \<Rightarrow> 'n" where
  "cursor_after t [] = t"
| "cursor_after t ((l, h) # rest) = cursor_after h rest"

lemma chain_snoc:
  "chain A t dt (rs @ [(l, h)])
     = (chain A t dt rs \<and> l = cursor_after t rs \<and> l < h
        \<and> op_add A l (if rs = [] then dt else float_1_0 A) = Inr h)"
  by (induction rs arbitrary: t dt) auto

lemma cursor_after_snoc: "cursor_after t (rs @ [(l, h)]) = h"
  by (induction rs arbitrary: t) auto

lemma cursor_after_eq: "cursor_after t rs = (if rs = [] then t else snd (last rs))"
  by (induction rs arbitrary: t) auto

lemma chain_cursor:
  assumes "numbers_ordered A"
  shows "chain A t dt rs \<Longrightarrow> t = cursor_after t rs \<or> t < cursor_after t rs"
proof (induction rs arbitrary: t dt)
  case Nil
  then show ?case by simp
next
  case (Cons p rs)
  obtain l h where p: "p = (l, h)" by (cases p)
  from Cons.prems have lh: "l = t" "l < h" and rest: "chain A h (float_1_0 A) rs"
    by (auto simp: p)
  from Cons.IH [OF rest] lh show ?case
    by (auto simp: p intro: ordered_trans [OF assms])
qed

lemma chain_first:
  assumes "numbers_ordered A" and "chain A t dt rs" and "rs \<noteq> []"
  shows "\<exists>h. op_add A t dt = Inr h \<and> (h = cursor_after t rs \<or> h < cursor_after t rs)"
proof -
  from assms(3) obtain l h rest where rs: "rs = (l, h) # rest"
    by (cases rs) auto
  from assms(2) have "op_add A t dt = Inr h" and "chain A h (float_1_0 A) rest"
    by (auto simp: rs)
  with chain_cursor [OF assms(1), of h "float_1_0 A" rest] show ?thesis
    by (auto simp: rs)
qed

lemma chain_next:
  assumes "numbers_ordered A"
  shows "chain A t dt rs \<Longrightarrow> (l, h) \<in> set rs \<Longrightarrow>
     h = cursor_after t rs
     \<or> (\<exists>h'. op_add A h (float_1_0 A) = Inr h'
           \<and> (h' = cursor_after t rs \<or> h' < cursor_after t rs))"
proof (induction rs arbitrary: t dt)
  case Nil
  then show ?case by simp
next
  case (Cons p rs)
  obtain l' h' where p: "p = (l', h')" by (cases p)
  from Cons.prems(1) have rest: "chain A h' (float_1_0 A) rs" by (simp add: p)
  show ?case
  proof (cases "(l, h) \<in> set rs")
    case True
    from Cons.IH [OF rest True] show ?thesis by (simp add: p)
  next
    case False
    with Cons.prems(2) have h: "h = h'" by (simp add: p)
    show ?thesis
    proof (cases "rs = []")
      case True
      then show ?thesis by (simp add: p h)
    next
      case False
      from chain_first [OF assms rest False] show ?thesis by (simp add: p h)
    qed
  qed
qed

lemma chain_above:
  assumes "numbers_ordered A"
  shows "chain A t dt rs \<Longrightarrow> (l, h) \<in> set rs \<Longrightarrow> t < h"
proof (induction rs arbitrary: t dt)
  case Nil
  then show ?case by simp
next
  case (Cons p rs)
  obtain l' h' where p: "p = (l', h')" by (cases p)
  from Cons.prems(1) have lh: "l' = t" "l' < h'" and rest: "chain A h' (float_1_0 A) rs"
    by (auto simp: p)
  show ?case
  proof (cases "(l, h) \<in> set rs")
    case True
    from Cons.IH [OF rest True] lh show ?thesis
      by (auto intro: ordered_trans [OF assms])
  next
    case False
    with Cons.prems(2) have "h = h'" by (simp add: p)
    with lh show ?thesis by simp
  qed
qed

lemma chain_sorted:
  assumes "numbers_ordered A"
  shows "chain A t dt rs \<Longrightarrow> sorted_wrt (<) (t # map snd rs)"
proof (induction rs arbitrary: t dt)
  case Nil
  then show ?case by simp
next
  case (Cons p rs)
  obtain l h where p: "p = (l, h)" by (cases p)
  from Cons.prems have lh: "l = t" "l < h" and rest: "chain A h (float_1_0 A) rs"
    by (auto simp: p)
  from Cons.IH [OF rest] have "sorted_wrt (<) (h # map snd rs)" .
  moreover have "\<forall>q \<in> set rs. t < snd q"
  proof
    fix q assume "q \<in> set rs"
    then have "(fst q, snd q) \<in> set rs" by simp
    from chain_above [OF assms rest this] lh show "t < snd q"
      by (auto intro: ordered_trans [OF assms])
  qed
  ultimately show ?case using lh by (simp add: p)
qed

lemma chain_nth:
  "chain A t dt rs \<Longrightarrow> i < length rs \<Longrightarrow>
     fst (rs ! i) = (if i = 0 then t else snd (rs ! (i - 1)))
     \<and> op_add A (fst (rs ! i)) (if i = 0 then dt else float_1_0 A) = Inr (snd (rs ! i))"
proof (induction rs arbitrary: t dt i)
  case Nil
  then show ?case by simp
next
  case (Cons p rs)
  obtain l h where p: "p = (l, h)" by (cases p)
  from Cons.prems(1) have lh: "l = t" "op_add A l dt = Inr h"
    and rest: "chain A h (float_1_0 A) rs"
    by (auto simp: p)
  show ?case
  proof (cases i)
    case 0
    then show ?thesis using lh by (simp add: p)
  next
    case (Suc j)
    with Cons.prems(2) have j: "j < length rs" by simp
    from Cons.IH [OF rest j] show ?thesis
      by (cases j) (auto simp: Suc p)
  qed
qed

lemma spans_append: "spans agentId (rs @ rs') = spans agentId rs @ spans agentId rs'"
  by (simp add: spans_def)

lemma spans_single:
  "spans agentId [(l, h, [(ID, state)])] = (if ID = agentId then [(l, h)] else [])"
  by (simp add: spans_def keys_Cons keys_Nil)

lemma states_of_append:
  "states_of agentId (rs @ rs') = states_of agentId rs @ states_of agentId rs'"
  by (simp add: states_of_def)

lemma states_of_dict:
  "distinct (keys d) \<Longrightarrow>
     [state. (ID, state) \<leftarrow> d, ID = agentId]
       = (case map_of d agentId of None \<Rightarrow> [] | Some state \<Rightarrow> [state])"
proof (induction d)
  case Nil
  then show ?case by simp
next
  case (Cons p d)
  obtain ID state where p: "p = (ID, state)" by (cases p)
  from Cons.prems have ID: "ID \<notin> set (keys d)" and d: "distinct (keys d)"
    by (simp_all add: p keys_Cons)
  show ?case
  proof (cases "ID = agentId")
    case True
    with ID have "map_of d agentId = None"
      by (simp add: map_of_eq_None_iff keys_def)
    with Cons.IH [OF d] have "[state. (ID, state) \<leftarrow> d, ID = agentId] = []" by simp
    then show ?thesis using True by (simp add: p)
  next
    case False
    then show ?thesis using Cons.IH [OF d] by (simp add: p)
  qed
qed

section \<open>The records of a run over an arbitrary arithmetic\<close>

text \<open>
  What holds of the store and the cursors in every state the scheduler reaches, whatever
  the arithmetic: the first record is the seed record; every later record was committed by
  a tick, for one agent of the seed, with \<open>low < high\<close> and a state whose \<open>time\<close> is the
  record's \<open>high\<close> and whose \<open>time_step\<close> is 1.0; the intervals of each agent are a chain from
  its seed time with its seed step, and its cursor is where the chain ends.
\<close>

definition commit_with ::
  "'n::ord arith \<Rightarrow> (string, 'n AgentState) dict \<Rightarrow>
     'n \<times> 'n \<times> (string, 'n AgentState) dict \<Rightarrow> bool" where
  "commit_with A ini r =
     (\<exists>l h agentId newState.
        r = (l, h, [(agentId, newState)]) \<and> l < h \<and> time newState = h
        \<and> time_step newState = float_1_0 A \<and> agentId \<in> set (keys ini))"

definition inv_with :: "'n::ord arith \<Rightarrow> (string, 'n AgentState) dict \<Rightarrow> 'n sim \<Rightarrow> bool" where
  "inv_with A ini s =
     ((\<exists>rest. store (qstore s) = (int_neg_999999999 A, int_0 A, ini) # rest
          \<and> (\<forall>r \<in> set rest. commit_with A ini r))
      \<and> (\<forall>agentId seed. map_of ini agentId = Some seed \<longrightarrow>
            chain A (time seed) (time_step seed) (spans agentId (tl (store (qstore s))))
            \<and> map_of (times s) agentId
                = Some (cursor_after (time seed) (spans agentId (tl (store (qstore s)))))))"

lemma map_of_times_seed:
  "map_of (map (\<lambda>(agentId, state). (agentId, time state)) ini) agentId
     = map_option time (map_of ini agentId)"
  by (induction ini) auto

lemma inv_with_start:
  "numbers_ordered A \<Longrightarrow> inv_with A ini (snd (start_with A ini))"
  by (simp add: start_with_eq inv_with_def spans_def map_of_times_seed)

lemma keys_map_of: "k \<in> set (keys d) \<Longrightarrow> \<exists>v. map_of d k = Some v"
  by (induction d) (auto simp: keys_def)

text \<open>
  The state that a read of a reachable store holds for an agent is the agent's seed state
  or a state it has committed, whatever the point of the read.
\<close>

lemma snapshot_state:
  assumes "inv_with A ini s" and "distinct (keys ini)"
    and "map_of (read (qstore s) query) agentId = Some self"
  shows "map_of ini agentId = Some self
     \<or> ((\<exists>l. (l, time self) \<in> set (spans agentId (tl (store (qstore s)))))
        \<and> time_step self = float_1_0 A \<and> agentId \<in> set (keys ini))"
proof -
  from assms(1) obtain rest
    where st: "store (qstore s) = (int_neg_999999999 A, int_0 A, ini) # rest"
      and rest: "\<forall>r \<in> set rest. commit_with A ini r"
    by (auto simp: inv_with_def)
  have dist: "\<forall>d \<in> set (map rec_value (filter (covers query) (store (qstore s)))).
      distinct (keys d)"
    using assms(2) rest
    by (auto simp: st rec_value_def commit_with_def keys_Cons keys_Nil)
  from merge_Some [OF dist assms(3) [unfolded read_eq]]
  obtain r where r: "r \<in> set (store (qstore s))"
    and self: "map_of (rec_value r) agentId = Some self"
    by auto
  show ?thesis
  proof (cases "r = (int_neg_999999999 A, int_0 A, ini)")
    case True
    with self show ?thesis by (simp add: rec_value_def)
  next
    case False
    with r have mem: "r \<in> set rest" by (simp add: st)
    with rest have "commit_with A ini r" by blast
    then obtain l h ID newState where r': "r = (l, h, [(ID, newState)])"
      and c: "time newState = h" "time_step newState = float_1_0 A" "ID \<in> set (keys ini)"
      by (auto simp: commit_with_def)
    from self have e: "ID = agentId" "newState = self"
      by (auto simp: r' rec_value_def split: if_splits)
    from mem have "(l, h) \<in> set (spans agentId rest)"
      by (force simp: spans_def r' e keys_Cons keys_Nil)
    with c e show ?thesis by (auto simp: st)
  qed
qed

text \<open>
  The state that a committed propagation started from: the state at the cursor, the seed
  state before the agent's first commit and one with \<open>time_step\<close> 1.0 after it. From any
  other state of the agent \<open>propagate\<close> computes a time that the agent has reached already,
  and the store refuses the interval.
\<close>

lemma commit_input_state:
  assumes ord: "numbers_ordered A"
    and i: "inv_with A ini s" and dk: "distinct (keys ini)"
    and cu0: "map_of (times s) agentId = Some t"
    and pr: "propagate_with A agentId (read (qstore s) query) = Inr newState"
    and lt: "t < time newState"
  shows "\<exists>self seed. map_of (read (qstore s) query) agentId = Some self
      \<and> map_of ini agentId = Some seed
      \<and> op_add A (time self) (time_step self) = Inr (time newState) \<and> time self = t
      \<and> (if spans agentId (tl (store (qstore s))) = [] then self = seed
          else time_step self = float_1_0 A)"
proof -
  let ?own = "spans agentId (tl (store (qstore s)))"
  from propagate_with_Inr [OF pr] obtain self
    where self: "map_of (read (qstore s) query) agentId = Some self"
      and sum: "op_add A (time self) (time_step self) = Inr (time newState)"
    by auto
  from snapshot_state [OF i dk self] have "agentId \<in> set (keys ini)"
    by (auto simp: map_of_keys)
  then obtain seed where seed: "map_of ini agentId = Some seed"
    by (auto dest: keys_map_of)
  with i have ch: "chain A (time seed) (time_step seed) ?own"
    and cu: "map_of (times s) agentId = Some (cursor_after (time seed) ?own)"
    by (simp_all add: inv_with_def)
  from cu cu0 have t: "t = cursor_after (time seed) ?own" by simp
  have no: "\<not> (h = t \<or> h < t)" if "op_add A (time self) (time_step self) = Inr h" for h
  proof -
    from that sum have "h = time newState" by simp
    with lt show ?thesis
      using ordered_irrefl [OF ord, of t] ordered_trans [OF ord, of t h t] by auto
  qed
  from snapshot_state [OF i dk self] show ?thesis
  proof
    assume "map_of ini agentId = Some self"
    with seed have e: "self = seed" by simp
    show ?thesis
    proof (cases "?own = []")
      case True
      with t e self seed sum show ?thesis by simp
    next
      case False
      from chain_first [OF ord ch False] obtain h
        where "op_add A (time seed) (time_step seed) = Inr h" "h = t \<or> h < t"
        by (auto simp: t)
      with no [of h] e show ?thesis by simp
    qed
  next
    assume "(\<exists>l. (l, time self) \<in> set ?own) \<and> time_step self = float_1_0 A
      \<and> agentId \<in> set (keys ini)"
    then obtain l where mem: "(l, time self) \<in> set ?own"
      and one: "time_step self = float_1_0 A"
      by auto
    from mem have ne: "?own \<noteq> []" by auto
    from chain_next [OF ord ch mem] have "time self = t"
    proof
      assume "time self = cursor_after (time seed) ?own"
      then show ?thesis by (simp add: t)
    next
      assume "\<exists>h'. op_add A (time self) (float_1_0 A) = Inr h'
        \<and> (h' = cursor_after (time seed) ?own \<or> h' < cursor_after (time seed) ?own)"
      then obtain h' where "op_add A (time self) (time_step self) = Inr h'" "h' = t \<or> h' < t"
        by (auto simp: t one)
      with no [of h'] show ?thesis by simp
    qed
    with self seed sum one ne show ?thesis by simp
  qed
qed

lemma tl_store_committed_with:
  "inv_with A ini s \<Longrightarrow>
     tl (store (qstore (committed s agentId t newState)))
       = tl (store (qstore s)) @ [(t, time newState, [(agentId, newState)])]"
  by (auto simp: inv_with_def committed_def)

lemma times_committed:
  "map_of (times (committed s agentId t newState))
     = (map_of (times s))(agentId \<mapsto> time newState)"
  by (simp add: committed_def map_of_dict_set)

lemma inv_with_committed:
  assumes ord: "numbers_ordered A"
    and i: "inv_with A ini s" and dk: "distinct (keys ini)"
    and cu0: "map_of (times s) agentId = Some t"
    and pr: "propagate_with A agentId (read (qstore s) query) = Inr newState"
    and lt: "t < time newState"
  shows "inv_with A ini (committed s agentId t newState)"
proof -
  let ?s' = "committed s agentId t newState"
  from commit_input_state [OF ord i dk cu0 pr lt] obtain self seed
    where seed: "map_of ini agentId = Some seed"
      and sum: "op_add A (time self) (time_step self) = Inr (time newState)"
      and at: "time self = t"
      and step: "if spans agentId (tl (store (qstore s))) = [] then self = seed
                 else time_step self = float_1_0 A"
    by blast
  from propagate_with_Inr [OF pr] have one: "time_step newState = float_1_0 A" by auto
  from seed have mem: "agentId \<in> set (keys ini)" by (rule map_of_keys)
  have rec: "commit_with A ini (t, time newState, [(agentId, newState)])"
    using lt one mem by (simp add: commit_with_def)
  from i obtain rest
    where st: "store (qstore s) = (int_neg_999999999 A, int_0 A, ini) # rest"
      and rest: "\<forall>r \<in> set rest. commit_with A ini r"
    by (auto simp: inv_with_def)
  have shape: "\<exists>rest'. store (qstore ?s') = (int_neg_999999999 A, int_0 A, ini) # rest'
      \<and> (\<forall>r \<in> set rest'. commit_with A ini r)"
    using rest rec by (auto simp: committed_def st)
  have "chain A (time seed') (time_step seed') (spans ID (tl (store (qstore ?s'))))
      \<and> map_of (times ?s') ID
          = Some (cursor_after (time seed') (spans ID (tl (store (qstore ?s')))))"
    if seed': "map_of ini ID = Some seed'" for ID seed'
  proof -
    from i seed'
    have ch: "chain A (time seed') (time_step seed') (spans ID (tl (store (qstore s))))"
      and cu: "map_of (times s) ID
                 = Some (cursor_after (time seed') (spans ID (tl (store (qstore s)))))"
      by (simp_all add: inv_with_def)
    show ?thesis
    proof (cases "ID = agentId")
      case True
      with seed seed' have e: "seed' = seed" by simp
      from cu cu0 True
      have t: "t = cursor_after (time seed) (spans agentId (tl (store (qstore s))))"
        by (simp add: e)
      have "op_add A t (if spans agentId (tl (store (qstore s))) = [] then time_step seed
                         else float_1_0 A) = Inr (time newState)"
        using sum at step by (auto split: if_splits)
      then show ?thesis
        using ch lt True t
        by (simp add: tl_store_committed_with [OF i] spans_append spans_single chain_snoc
              cursor_after_snoc times_committed e)
    next
      case False
      then show ?thesis
        using ch cu
        by (simp add: tl_store_committed_with [OF i] spans_append spans_single times_committed)
    qed
  qed
  with shape show ?thesis by (simp add: inv_with_def)
qed

lemma inv_with_tick:
  assumes "numbers_ordered A" and "distinct (keys ini)" and "inv_with A ini s"
  shows "inv_with A ini (snd (tick_with A ini agentId s))"
  using tick_with_cases [of A ini agentId s] assms inv_with_committed [of A ini s agentId]
  by auto

lemma inv_with_reached:
  assumes "numbers_ordered A" and "distinct (keys ini)"
    and "s = snd (run_with A ini n)
         \<or> s = snd (pass_with A ini schedule (snd (start_with A ini)))"
  shows "inv_with A ini s"
proof -
  have "inv_with A ini (snd (pass_with A ini schedule (snd (start_with A ini))))"
    by (rule pass_with_preserves [where P = "inv_with A ini"])
       (simp_all add: inv_with_tick assms(1,2) inv_with_start)
  moreover have "inv_with A ini (snd (passes_with A ini n (snd (start_with A ini))))"
    by (rule passes_with_preserves [where P = "inv_with A ini"])
       (simp_all add: inv_with_tick assms(1,2) inv_with_start)
  then have "inv_with A ini (snd (run_with A ini n))"
    by (simp add: run_with_def start_with_eq [OF assms(1)])
  ultimately show ?thesis using assms(3) by auto
qed

lemma states_of_commits:
  "\<forall>r \<in> set rs. commit_with A ini r \<Longrightarrow>
     map time (states_of agentId rs) = map snd (spans agentId rs)"
proof (induction rs)
  case Nil
  then show ?case by (simp add: states_of_def spans_def)
next
  case (Cons r rs)
  from Cons.prems have r: "commit_with A ini r" and rs: "\<forall>r \<in> set rs. commit_with A ini r"
    by simp_all
  from r obtain l h ID state where r': "r = (l, h, [(ID, state)])" and t: "time state = h"
    by (auto simp: commit_with_def)
  have "map time (states_of agentId [r]) = map snd (spans agentId [r])"
    using t by (simp add: r' spans_single) (simp add: states_of_def)
  with Cons.IH [OF rs] show ?case
    using states_of_append [of agentId "[r]" rs] spans_append [of agentId "[r]" rs]
    by simp
qed

text \<open>In a reachable store the states of each agent have strictly increasing times.\<close>

lemma inv_with_states_sorted:
  assumes "numbers_ordered A" and "inv_with A ini s" and "distinct (keys ini)"
  shows "sorted_wrt (<) (map time (states_of agentId (store (qstore s))))"
proof -
  from assms(2) obtain rest
    where st: "store (qstore s) = (int_neg_999999999 A, int_0 A, ini) # rest"
      and rest: "\<forall>r \<in> set rest. commit_with A ini r"
    by (auto simp: inv_with_def)
  have later: "map time (states_of agentId rest) = map snd (spans agentId rest)"
    using rest by (rule states_of_commits)
  have first: "states_of agentId [(int_neg_999999999 A, int_0 A, ini)]
      = (case map_of ini agentId of None \<Rightarrow> [] | Some state \<Rightarrow> [state])"
    using states_of_dict [OF assms(3), of agentId] by (simp add: states_of_def)
  have all: "states_of agentId (store (qstore s))
      = states_of agentId [(int_neg_999999999 A, int_0 A, ini)] @ states_of agentId rest"
    using states_of_append [of agentId "[(int_neg_999999999 A, int_0 A, ini)]" rest]
    by (simp add: st)
  show ?thesis
  proof (cases "map_of ini agentId")
    case None
    have "spans agentId rest = []"
    proof (rule ccontr)
      assume "spans agentId rest \<noteq> []"
      then obtain r where "r \<in> set rest" "case r of (l, h, v) \<Rightarrow> keys v = [agentId]"
        by (fastforce simp: spans_def filter_empty_conv)
      with rest have "agentId \<in> set (keys ini)"
        by (auto simp: commit_with_def keys_Cons keys_Nil)
      with None show False by (auto dest: keys_map_of)
    qed
    with None show ?thesis by (simp add: all first later)
  next
    case (Some seed)
    with assms(2) have "chain A (time seed) (time_step seed) (spans agentId rest)"
      by (simp add: inv_with_def st)
    from chain_sorted [OF assms(1) this] Some show ?thesis
      by (simp add: all first later)
  qed
qed

section \<open>Two runs of one agent\<close>

text \<open>One agent with a seed step of 0.5: it commits at 0.5 and at 1.5.\<close>

definition solo :: "(string, real AgentState) dict" where
  "solo = [(''A'', \<lparr>name = ''a'', time = 0, time_step = 0.5, x = 0, y = 0, vx = 1, vy = 0, m = 1\<rparr>)]"

definition solo_state_1 :: "real AgentState" where
  "solo_state_1 = \<lparr>name = ''a'', time = 0.5, time_step = 1, x = 0.5, y = 0, vx = 1, vy = 0, m = 1\<rparr>"

definition solo_state_2 :: "real AgentState" where
  "solo_state_2 = \<lparr>name = ''a'', time = 1.5, time_step = 1, x = 1.5, y = 0, vx = 1, vy = 0, m = 1\<rparr>"

definition solo_1 :: "real sim" where
  "solo_1 = \<lparr>qstore = \<lparr>store = [(- 999999999, 0, solo), (0, 0.5, [(''A'', solo_state_1)])]\<rparr>,
             times = [(''A'', 0.5)]\<rparr>"

definition solo_2 :: "real sim" where
  "solo_2 = \<lparr>qstore = \<lparr>store = [(- 999999999, 0, solo), (0, 0.5, [(''A'', solo_state_1)]),
                                  (0.5, 1.5, [(''A'', solo_state_2)])]\<rparr>,
             times = [(''A'', 1.5)]\<rparr>"

lemma solo_tick_1: "tick solo ''A'' (start solo) = (Inr (), solo_1)"
  by (simp add: solo_1_def solo_state_1_def solo_def tick_eq start_eq read_def getitem_def
        merge_def dict_or_def propagate_def keys_def Let_def committed_def)

lemma solo_tick_2: "tick solo ''A'' solo_1 = (Inr (), solo_2)"
  by (simp add: solo_2_def solo_1_def solo_state_1_def solo_state_2_def solo_def tick_eq
        read_def getitem_def merge_def dict_or_def propagate_def keys_def Let_def committed_def)

lemma solo_keys: "keys solo = [''A'']"
  by (simp add: solo_def keys_def)

lemma solo_run_2: "run solo 2 = (Inr (), solo_2)"
proof -
  have "run solo (Suc (Suc 0)) = (Inr (), solo_2)"
    by (simp add: run_def solo_keys solo_tick_1 solo_tick_2)
  then show ?thesis by (simp add: numeral_2_eq_2)
qed

text \<open>
  One agent with a seed step of 0.0005, less than the lookback: after its first commit the
  query at \<open>cursor - 0.001\<close> falls before its own record, into the seed record.
\<close>

definition small_step :: "(string, real AgentState) dict" where
  "small_step =
     [(''A'', \<lparr>name = ''a'', time = 0, time_step = 0.0005, x = 0, y = 0, vx = 1, vy = 0, m = 1\<rparr>)]"

definition small_step_state :: "real AgentState" where
  "small_step_state =
     \<lparr>name = ''a'', time = 0.0005, time_step = 1, x = 0.0005, y = 0, vx = 1, vy = 0, m = 1\<rparr>"

definition small_step_1 :: "real sim" where
  "small_step_1 =
     \<lparr>qstore = \<lparr>store = [(- 999999999, 0, small_step),
                          (0, 0.0005, [(''A'', small_step_state)])]\<rparr>,
      times = [(''A'', 0.0005)]\<rparr>"

lemma small_step_tick_1: "tick small_step ''A'' (start small_step) = (Inr (), small_step_1)"
  by (simp add: small_step_1_def small_step_state_def small_step_def tick_eq start_eq read_def
        getitem_def merge_def dict_or_def propagate_def keys_def Let_def committed_def)

lemma small_step_read: "read (qstore small_step_1) (0.0005 - 0.001) = small_step"
  by (simp add: small_step_1_def small_step_def read_def getitem_def merge_def dict_or_def)

lemma small_step_propagate: "propagate ''A'' small_step = Inr small_step_state"
  by (simp add: small_step_def small_step_state_def propagate_def Let_def)

lemma small_step_tick_2: "tick small_step ''A'' small_step_1 = (Inl InvalidRange, small_step_1)"
proof -
  have "map_of (times small_step_1) ''A'' = Some 0.0005"
    by (simp add: small_step_1_def)
  moreover have "time small_step_state = 0.0005"
    by (simp add: small_step_state_def)
  ultimately show ?thesis
    by (simp only: tick_eq option.case small_step_read small_step_propagate sum.case)
       (simp add: small_step_def keys_def)
qed

lemma small_step_keys: "keys small_step = [''A'']"
  by (simp add: small_step_def keys_def)

lemma small_step_run_2: "run small_step 2 = (Inl InvalidRange, small_step_1)"
proof -
  have "run small_step (Suc (Suc 0)) = (Inl InvalidRange, small_step_1)"
    by (simp add: run_def small_step_keys small_step_tick_1 small_step_tick_2)
  then show ?thesis by (simp add: numeral_2_eq_2)
qed

lemma init_keys: "keys init = [''Planet'', ''Satellite'', ''Sun'']"
  by (simp add: init_def keys_def)


section \<open>Monotonic time\<close>

text \<open>
  C6 (amended): in every state of a run, whatever the arithmetic, every record of the
  store has \<open>low < high\<close>, and for every agent the states the store holds for it, in
  insertion order, have strictly increasing \<open>time\<close>. An insertion of the scheduler can raise
  \<open>InvalidRange\<close>: with the gate open and a state returned by \<open>propagate\<close>, the tick commits
  if the time of that state is above the agent's cursor and raises \<open>InvalidRange\<close> if it is
  not. A tick that raises leaves the store and the cursors as they were.
\<close>

theorem committed_times_increase:
  assumes "numbers_ordered A" and "distinct (keys ini)"
    and "s = snd (run_with A ini n)
         \<or> s = snd (pass_with A ini schedule (snd (start_with A ini)))"
  shows "(\<forall>(l, h, v) \<in> set (store (qstore s)). l < h)
    \<and> (\<forall>agentId. sorted_wrt (<) (map time (states_of agentId (store (qstore s)))))
    \<and> (\<forall>agentId e. fst (tick_with A ini agentId s) = Inl e \<longrightarrow>
          snd (tick_with A ini agentId s) = s)
    \<and> (\<forall>agentId t query newState.
          map_of (times s) agentId = Some t \<and> op_sub A t (float_0_001 A) = Inr query
          \<and> set (keys (read (qstore s) query)) = set (keys ini)
          \<and> propagate_with A agentId (read (qstore s) query) = Inr newState \<longrightarrow>
          tick_with A ini agentId s
            = (if t < time newState then (Inr (), committed s agentId t newState)
               else (Inl InvalidRange, s)))"
proof -
  have i: "inv_with A ini s" using assms by (rule inv_with_reached)
  then obtain rest
    where st: "store (qstore s) = (int_neg_999999999 A, int_0 A, ini) # rest"
      and rest: "\<forall>r \<in> set rest. commit_with A ini r"
    by (auto simp: inv_with_def)
  have "\<forall>(l, h, v) \<in> set rest. l < h"
  proof
    fix r assume "r \<in> set rest"
    with rest have "commit_with A ini r" by blast
    then show "case r of (l, h, v) \<Rightarrow> l < h" by (auto simp: commit_with_def)
  qed
  moreover from assms(1) have "int_neg_999999999 A < int_0 A"
    by (simp add: numbers_ordered_def)
  ultimately have low_high: "\<forall>(l, h, v) \<in> set (store (qstore s)). l < h"
    by (simp add: st)
  have sorted: "\<forall>agentId. sorted_wrt (<) (map time (states_of agentId (store (qstore s))))"
    using inv_with_states_sorted [OF assms(1) i assms(2)] by blast
  have raises: "\<forall>agentId e. fst (tick_with A ini agentId s) = Inl e \<longrightarrow>
          snd (tick_with A ini agentId s) = s"
    by (blast intro: tick_with_raises)
  have insertion: "\<forall>agentId t query newState.
          map_of (times s) agentId = Some t \<and> op_sub A t (float_0_001 A) = Inr query
          \<and> set (keys (read (qstore s) query)) = set (keys ini)
          \<and> propagate_with A agentId (read (qstore s) query) = Inr newState \<longrightarrow>
          tick_with A ini agentId s
            = (if t < time newState then (Inr (), committed s agentId t newState)
               else (Inl InvalidRange, s))"
    by (simp add: tick_with_eq)
  from low_high sorted raises insertion show ?thesis by (intro conjI)
qed

theorem committed_times_increase_witness:
  "map time (states_of ''A'' (store (qstore (snd (run_with real_arith solo 2))))) = [0, 0.5, 1.5]
   \<and> sorted_wrt (<) (map time (states_of ''A'' (store (qstore (snd (run_with real_arith solo 2))))))
   \<and> sorted_wrt (<) (map time (states_of ''Planet'' (store (qstore (snd main)))))"
proof -
  have d: "distinct (keys solo)" by (simp add: solo_keys)
  have e: "map time (states_of ''A'' (store (qstore (snd (run_with real_arith solo 2)))))
      = [0, 0.5, 1.5]"
    by (simp only: run_exact solo_run_2 snd_conv)
       (simp add: solo_2_def states_of_def solo_def solo_state_1_def solo_state_2_def)
  note th = committed_times_increase [OF real_ordered d disjI1 [OF refl], where n = 2]
  from th have "\<forall>agentId. sorted_wrt (<)
      (map time (states_of agentId (store (qstore (snd (run_with real_arith solo 2))))))"
    by (rule conjunct1 [OF conjunct2])
  then have s: "sorted_wrt (<)
      (map time (states_of ''A'' (store (qstore (snd (run_with real_arith solo 2))))))"
    by (rule spec)
  have d': "distinct (keys init)" by (simp add: init_keys)
  note th' = committed_times_increase [OF real_ordered d' disjI1 [OF refl], where n = 10000]
  from th' have "\<forall>agentId. sorted_wrt (<)
      (map time (states_of agentId (store (qstore (snd (run_with real_arith init 10000))))))"
    by (rule conjunct1 [OF conjunct2])
  then have "sorted_wrt (<)
      (map time (states_of ''Planet'' (store (qstore (snd (run_with real_arith init 10000))))))"
    by (rule spec)
  then have s': "sorted_wrt (<) (map time (states_of ''Planet'' (store (qstore (snd main)))))"
    by (simp only: run_exact main_def)
  from e s s' show ?thesis by (intro conjI)
qed

text \<open>
  C6 as stated fails for a seed step below the lookback: the agent's second tick reads the
  seed record again, computes the time it has already reached, and the insertion of
  \<open>[0.0005, 0.0005)\<close> raises \<open>InvalidRange\<close>.
\<close>

theorem invalid_range_raised_counterexample:
  "tick small_step ''A'' (start small_step) = (Inr (), small_step_1)
   \<and> tick small_step ''A'' small_step_1 = (Inl InvalidRange, small_step_1)
   \<and> fst (run small_step 2) = Inl InvalidRange
   \<and> fst (run_with real_arith small_step 2) = Inl InvalidRange"
  by (simp add: small_step_tick_1 small_step_tick_2 small_step_run_2 run_exact)

section \<open>The steps of the commits\<close>

text \<open>
  C10 (amended): \<open>propagate\<close> takes \<open>dt\<close> from the \<open>time_step\<close> of the input state, and every state
  an agent commits has \<open>time_step = 1.0\<close>. In every state of a run, whatever the arithmetic,
  the first interval an agent has committed starts at its seed time and ends at the sum of
  that time and the seed's \<open>time_step\<close>, and each later one starts where the one before
  ended and ends at the sum of its start and 1.0; the committed states have the ends as
  their times, and the cursor is the last end. A propagation whose result the store
  accepts, whatever the point the snapshot was read at, started from the state at the
  cursor: the seed state when the agent had not committed yet, a state with
  \<open>time_step = 1.0\<close> otherwise. So a propagation after the first commit that takes another
  \<open>dt\<close> is not committed.
\<close>

theorem later_steps_are_one:
  assumes "numbers_ordered A" and "distinct (keys ini)"
    and "s = snd (run_with A ini n)
         \<or> s = snd (pass_with A ini schedule (snd (start_with A ini)))"
    and "map_of ini agentId = Some seed"
    and "own = spans agentId (tl (store (qstore s)))"
  shows "(\<forall>i < length own.
            fst (own ! i) = (if i = 0 then time seed else snd (own ! (i - 1)))
            \<and> op_add A (fst (own ! i)) (if i = 0 then time_step seed else float_1_0 A)
                = Inr (snd (own ! i)))
    \<and> map time (states_of agentId (tl (store (qstore s)))) = map snd own
    \<and> (\<forall>state \<in> set (states_of agentId (tl (store (qstore s)))).
          time_step state = float_1_0 A)
    \<and> map_of (times s) agentId = Some (if own = [] then time seed else snd (last own))
    \<and> (\<forall>t query newState. map_of (times s) agentId = Some t
            \<and> propagate_with A agentId (read (qstore s) query) = Inr newState
            \<and> t < time newState \<longrightarrow>
          (\<exists>self. map_of (read (qstore s) query) agentId = Some self
             \<and> op_add A (time self) (time_step self) = Inr (time newState)
             \<and> time self = t
             \<and> (if own = [] then self = seed else time_step self = float_1_0 A)))"
proof -
  have i: "inv_with A ini s" using assms(1-3) by (rule inv_with_reached)
  with assms(4) have ch: "chain A (time seed) (time_step seed) own"
    and cu: "map_of (times s) agentId = Some (cursor_after (time seed) own)"
    unfolding assms(5) by (simp_all add: inv_with_def)
  have steps: "\<forall>i < length own.
            fst (own ! i) = (if i = 0 then time seed else snd (own ! (i - 1)))
            \<and> op_add A (fst (own ! i)) (if i = 0 then time_step seed else float_1_0 A)
                = Inr (snd (own ! i))"
    using chain_nth [OF ch] by blast
  have cursor: "map_of (times s) agentId = Some (if own = [] then time seed else snd (last own))"
    using cu by (simp only: cursor_after_eq)
  from i obtain rest
    where st: "store (qstore s) = (int_neg_999999999 A, int_0 A, ini) # rest"
      and rest: "\<forall>r \<in> set rest. commit_with A ini r"
    by (auto simp: inv_with_def)
  have states: "map time (states_of agentId (tl (store (qstore s)))) = map snd own"
    using states_of_commits [OF rest, of agentId] unfolding assms(5) by (simp add: st)
  have sentinel: "\<forall>state \<in> set (states_of agentId (tl (store (qstore s)))).
      time_step state = float_1_0 A"
  proof
    fix state assume "state \<in> set (states_of agentId (tl (store (qstore s))))"
    then obtain r where r: "r \<in> set rest" and m: "(agentId, state) \<in> set (rec_value r)"
      by (auto simp: states_of_def st rec_value_def split: if_splits)
    from rest r have "commit_with A ini r" by blast
    with m show "time_step state = float_1_0 A"
      by (auto simp: commit_with_def rec_value_def)
  qed
  have input: "\<forall>t query newState. map_of (times s) agentId = Some t
            \<and> propagate_with A agentId (read (qstore s) query) = Inr newState
            \<and> t < time newState \<longrightarrow>
          (\<exists>self. map_of (read (qstore s) query) agentId = Some self
             \<and> op_add A (time self) (time_step self) = Inr (time newState)
             \<and> time self = t
             \<and> (if own = [] then self = seed else time_step self = float_1_0 A))"
  proof (intro allI impI, elim conjE)
    fix t query newState
    assume "map_of (times s) agentId = Some t"
      and "propagate_with A agentId (read (qstore s) query) = Inr newState"
      and "t < time newState"
    from commit_input_state [OF assms(1) i assms(2) this] obtain self seed'
      where self: "map_of (read (qstore s) query) agentId = Some self"
        "op_add A (time self) (time_step self) = Inr (time newState)" "time self = t"
        and seed': "map_of ini agentId = Some seed'"
        and step: "if own = [] then self = seed' else time_step self = float_1_0 A"
      unfolding assms(5) by blast
    from seed' assms(4) have "seed' = seed" by simp
    with self step
    show "\<exists>self. map_of (read (qstore s) query) agentId = Some self
             \<and> op_add A (time self) (time_step self) = Inr (time newState)
             \<and> time self = t
             \<and> (if own = [] then self = seed else time_step self = float_1_0 A)"
      by blast
  qed
  from steps states sentinel cursor input show ?thesis by (intro conjI)
qed

theorem later_steps_are_one_witness:
  "spans ''A'' (tl (store (qstore (snd (run_with real_arith solo 2))))) = [(0, 0.5), (0.5, 1.5)]
   \<and> map time (states_of ''A'' (tl (store (qstore (snd (run_with real_arith solo 2))))))
       = [0.5, 1.5]
   \<and> map_of (times (snd (run_with real_arith solo 2))) ''A'' = Some 1.5"
proof -
  let ?seed = "\<lparr>name = ''a'', time = 0 :: real, time_step = 0.5, x = 0, y = 0, vx = 1, vy = 0,
                m = 1\<rparr>"
  have d: "distinct (keys solo)" by (simp add: solo_keys)
  have seed: "map_of solo ''A'' = Some ?seed" by (simp add: solo_def)
  have own: "[(0, 0.5), (0.5, 1.5)]
      = spans ''A'' (tl (store (qstore (snd (run_with real_arith solo 2)))))"
    by (simp only: run_exact solo_run_2 snd_conv) (simp add: solo_2_def spans_def keys_def)
  note th = later_steps_are_one [OF real_ordered d disjI1 [OF refl] seed own]
  from th
  have "map time (states_of ''A'' (tl (store (qstore (snd (run_with real_arith solo 2))))))
        = map snd [(0 :: real, 0.5 :: real), (0.5, 1.5)]"
    by (rule conjunct1 [OF conjunct2])
  then have a: "map time (states_of ''A'' (tl (store (qstore (snd (run_with real_arith solo 2))))))
      = [0.5, 1.5]"
    by simp
  from th
  have "map_of (times (snd (run_with real_arith solo 2))) ''A''
        = Some (if [(0 :: real, 0.5 :: real), (0.5, 1.5)] = [] then time ?seed
                else snd (last [(0 :: real, 0.5 :: real), (0.5, 1.5)]))"
    by (rule conjunct1 [OF conjunct2 [OF conjunct2 [OF conjunct2]]])
  then have b: "map_of (times (snd (run_with real_arith solo 2))) ''A'' = Some 1.5"
    by simp
  from own [symmetric] a b show ?thesis by (intro conjI)
qed

text \<open>
  C10 as stated fails for a seed step below the lookback: after the first commit the gate
  of the next tick is open and the state the second propagation takes \<open>dt\<close> from is the
  seed state again, with \<open>time_step = 0.0005\<close> and not 1.0; its result is not committed.
\<close>

theorem second_step_not_one_counterexample:
  "tick_with real_arith small_step ''A'' (start small_step) = (Inr (), small_step_1)
   \<and> map_of (times small_step_1) ''A'' = Some 0.0005
   \<and> op_sub real_arith 0.0005 (float_0_001 real_arith) = Inr (0.0005 - 0.001)
   \<and> set (keys (read (qstore small_step_1) (0.0005 - 0.001))) = set (keys small_step)
   \<and> map_option time_step (map_of (read (qstore small_step_1) (0.0005 - 0.001)) ''A'')
       = Some 0.0005"
proof -
  have "map_of (times small_step_1) ''A'' = Some 0.0005"
    by (simp add: small_step_1_def)
  moreover have "map_option time_step (map_of small_step ''A'') = Some 0.0005"
    by (simp add: small_step_def)
  moreover have "op_sub real_arith 0.0005 (float_0_001 real_arith) = Inr (0.0005 - 0.001)"
    by (simp add: real_arith_def)
  ultimately show ?thesis
    by (simp only: tick_exact small_step_tick_1 small_step_read simp_thms)
qed

end
